theory Spec2Isabelle
  imports Main "HOL-Library.Sublist" "HOL-Library.Char_ord" "HOL-Library.List_Lexorder"
    "HOL-Library.Multiset"
begin

section \<open>Data model\<close>

text \<open>
  The task graph of \<^verbatim>\<open>src/tasks/TaskGraph.js\<close> and the output capture of
  \<^verbatim>\<open>cacheOutputs\<close>. JavaScript strings are modelled as \<open>string\<close>; the order used by
  \<^verbatim>\<open>Array.prototype.sort\<close> (code units, lexicographic) is the lexicographic order on
  character lists. Every exception the code can raise is a value of \<open>error\<close>.
\<close>

datatype error =
    CircularDependency "string list" string
  | WorkspaceNotFound string
  | TypeError string
  | OutputOutsideWorkspace string
  | StatFailed string
  | OutOfFuel

datatype status = Pending | Running | SuccessEager | SuccessLazy | Failure

datatype scope = AllPackages | SelfAndDependencies | SelfOnly

datatype execution = Dependent | Independent | TopLevel

record runs_after =
  ra_in :: scope
  ra_usesOutput :: bool

record task_config =
  tc_runsAfterEntries :: "(string \<times> runs_after) list"
  tc_execution :: execution
  tc_parallel :: bool

record workspace =
  ws_dir :: string
  ws_name :: string
  ws_scripts :: "string \<rightharpoonup> string"
  ws_localDependencyWorkspaceNames :: "string list"

record requested_task =
  rt_scriptName :: string
  rt_extraArgs :: "string list"
  rt_force :: bool
  rt_filterPaths :: "string list"

record scheduled_task =
  t_key :: string
  t_taskConfig :: task_config
  t_scriptName :: string
  t_extraArgs :: "string list"
  t_force :: bool
  t_status :: status
  t_outputFiles :: "string list"
  t_dependencies :: "string list"
  t_inputManifestCacheKey :: "string option"
  t_workspace :: workspace

text \<open>
  Modelled from the spec: the Project class (project/Project.js is not among the
  sources). It holds the root workspace and the discovered workspaces; a workspace is
  identified by its directory, and the project offers lookup by directory and by name.
\<close>

record project =
  p_root :: workspace
  p_workspaces :: "workspace list"

definition getWorkspaceByDir :: "project \<Rightarrow> string \<Rightarrow> workspace option" where
  "getWorkspaceByDir p d = find (\<lambda>w. ws_dir w = d) (p_workspaces p)"

definition getWorkspaceByName :: "project \<Rightarrow> string \<Rightarrow> workspace option" where
  "getWorkspaceByName p n = find (\<lambda>w. ws_name w = n) (p_workspaces p)"

text \<open>
  Modelled from the spec: \<^verbatim>\<open>uniq\<close> (utils/uniq.js is not among the sources) makes the
  concatenated matches the union the specification describes: it removes duplicates and
  keeps the first occurrence of each element, as a JavaScript \<^verbatim>\<open>Set\<close> does.
\<close>

definition uniq :: "'a list \<Rightarrow> 'a list" where
  "uniq xs = rev (remdups (rev xs))"

text \<open>\<^verbatim>\<open>[...project.workspacesByDir.keys()]\<close>: the directories, in discovery order.\<close>

definition allWorkspaceDirs :: "project \<Rightarrow> string list" where
  "allWorkspaceDirs p = uniq (map ws_dir (p_workspaces p))"

text \<open>
  The Config object, as far as the graph uses it: the resolver of task configurations,
  the key function and the top-level test are parameters.
\<close>

record config =
  c_project :: project
  c_getTaskConfig :: "workspace \<Rightarrow> string \<Rightarrow> task_config"
  c_getTaskKey :: "string \<Rightarrow> string \<Rightarrow> string"
  c_isTopLevelScript :: "string \<Rightarrow> bool"

text \<open>
  The library functions of the host platform that \<^verbatim>\<open>filterPackageDirs\<close> calls:
  \<^verbatim>\<open>path.isAbsolute\<close>, \<^verbatim>\<open>path.join\<close> and the glob test behind \<^verbatim>\<open>micromatch.match\<close>
  (pattern first, then the candidate).
\<close>

record host =
  h_isAbsolute :: "string \<Rightarrow> bool"
  h_join :: "string \<Rightarrow> string \<Rightarrow> string"
  h_isMatch :: "string \<Rightarrow> string \<Rightarrow> bool"

record graph =
  allTasks :: "string \<rightharpoonup> scheduled_task"
  sortedTaskKeys :: "string list"

section \<open>Construction of the task graph\<close>

text \<open>A \<^verbatim>\<open>for ... of\<close> loop over a list that threads the graph and stops at the first exception.\<close>

fun for_each :: "('a \<Rightarrow> 's \<Rightarrow> error + 's) \<Rightarrow> 'a list \<Rightarrow> 's \<Rightarrow> error + 's" where
  "for_each f [] s = Inr s"
| "for_each f (x # xs) s = (case f x s of Inl e \<Rightarrow> Inl e | Inr s' \<Rightarrow> for_each f xs s')"

text \<open>\<^verbatim>\<open>micromatch.match(list, pattern)\<close>: the elements of the list that match, without duplicates.\<close>

definition micromatch_match :: "host \<Rightarrow> string list \<Rightarrow> string \<Rightarrow> string list" where
  "micromatch_match h list pattern = uniq (filter (h_isMatch h pattern) list)"

definition filterPackageDirs :: "host \<Rightarrow> string \<Rightarrow> project \<Rightarrow> string list \<Rightarrow> string list" where
  "filterPackageDirs h workspaceRoot p filterPaths =
     (if length filterPaths = 0 then allWorkspaceDirs p
      else uniq (concat (map (\<lambda>pattern.
             micromatch_match h (allWorkspaceDirs p)
               (if h_isAbsolute h pattern then pattern else h_join h workspaceRoot pattern))
             filterPaths)))"

text \<open>
  The property names every plain JavaScript object inherits from \<^verbatim>\<open>Object.prototype\<close>;
  each reads as a function or an object, so as a true condition.
\<close>

definition objectPrototypeNames :: "string list" where
  "objectPrototypeNames =
     [''constructor'', ''hasOwnProperty'', ''isPrototypeOf'', ''propertyIsEnumerable'',
      ''toLocaleString'', ''toString'', ''valueOf'', ''__proto__'', ''__defineGetter__'',
      ''__defineSetter__'', ''__lookupGetter__'', ''__lookupSetter__'']"

text \<open>
  \<^verbatim>\<open>workspace.scripts[name]\<close> used as a condition. \<open>ws_scripts\<close> holds the entries of the
  \<^verbatim>\<open>scripts\<close> object of the package, a plain object: an entry of its own counts when its
  command is not the empty string, and a name without an entry counts when the object
  inherits it.
\<close>

definition hasScript :: "workspace \<Rightarrow> string \<Rightarrow> bool" where
  "hasScript w s =
     (case ws_scripts w s of
        None \<Rightarrow> s \<in> set objectPrototypeNames
      | Some cmd \<Rightarrow> cmd \<noteq> [])"

text \<open>
  \<^verbatim>\<open>dependencies?.push(key)\<close>. The array is the \<^verbatim>\<open>dependencies\<close> field of the node that
  is being visited, named here by its key; top-level requests pass no array.
\<close>

definition pushDependency :: "string option \<Rightarrow> string \<Rightarrow> graph \<Rightarrow> graph" where
  "pushDependency owner k g =
     (case owner of
        None \<Rightarrow> g
      | Some node \<Rightarrow>
          (case allTasks g node of
             None \<Rightarrow> g
           | Some t \<Rightarrow>
               g\<lparr>allTasks := (allTasks g)(node \<mapsto> t\<lparr>t_dependencies := t_dependencies t @ [k]\<rparr>)\<rparr>))"

type_synonym visitor = "string list \<Rightarrow> requested_task \<Rightarrow> workspace \<Rightarrow> graph \<Rightarrow> error + graph"

text \<open>
  \<^verbatim>\<open>enqueueTask\<close> and \<^verbatim>\<open>visit\<close> are closures that call each other. \<open>enqueueTask\<close> takes
  the \<open>visit\<close> it calls as its first argument; \<open>visit\<close> below ties the knot.
\<close>

definition enqueueTask ::
  "visitor \<Rightarrow> host \<Rightarrow> config \<Rightarrow> string list \<Rightarrow> requested_task \<Rightarrow> string option \<Rightarrow> graph \<Rightarrow> error + graph" where
  "enqueueTask visit_fn h c path requestedTask dependencies g =
     (if c_isTopLevelScript c (rt_scriptName requestedTask) then
        (let k = c_getTaskKey c (ws_dir (p_root (c_project c))) (rt_scriptName requestedTask)
         in visit_fn path requestedTask (p_root (c_project c)) (pushDependency dependencies k g))
      else
        for_each (\<lambda>d g'.
            (case getWorkspaceByDir (c_project c) d of
               None \<Rightarrow> Inl (WorkspaceNotFound d)
             | Some w \<Rightarrow>
                 if hasScript w (rt_scriptName requestedTask) then
                   (let k = c_getTaskKey c d (rt_scriptName requestedTask)
                    in visit_fn path requestedTask w (pushDependency dependencies k g'))
                 else Inr g'))
          (filterPackageDirs h (ws_dir (p_root (c_project c))) (c_project c)
             (rt_filterPaths requestedTask))
          g)"

text \<open>The directories of the named workspaces; a name that resolves to nothing raises.\<close>

fun dirsOfNames :: "project \<Rightarrow> string list \<Rightarrow> error + string list" where
  "dirsOfNames p [] = Inr []"
| "dirsOfNames p (n # ns) =
     (case getWorkspaceByName p n of
        None \<Rightarrow> Inl (WorkspaceNotFound n)
      | Some w \<Rightarrow> (case dirsOfNames p ns of Inl e \<Rightarrow> Inl e | Inr ds \<Rightarrow> Inr (ws_dir w # ds)))"

definition upstreamFilterPaths :: "project \<Rightarrow> workspace \<Rightarrow> runs_after \<Rightarrow> error + string list" where
  "upstreamFilterPaths p w upstreamScriptConfig =
     (if ra_in upstreamScriptConfig = SelfAndDependencies then
        (case dirsOfNames p (ws_localDependencyWorkspaceNames w) of
           Inl e \<Rightarrow> Inl e
         | Inr ds \<Rightarrow> Inr ([ws_dir w] @ ds))
      else if ra_in upstreamScriptConfig = SelfOnly then Inr [ws_dir w]
      else Inr [])"

definition newTask :: "string \<Rightarrow> task_config \<Rightarrow> requested_task \<Rightarrow> workspace \<Rightarrow> scheduled_task" where
  "newTask k taskConfig requestedTask w =
     \<lparr>t_key = k, t_taskConfig = taskConfig, t_scriptName = rt_scriptName requestedTask,
      t_extraArgs = rt_extraArgs requestedTask, t_force = rt_force requestedTask,
      t_status = Pending, t_outputFiles = [], t_dependencies = [],
      t_inputManifestCacheKey = None, t_workspace = w\<rparr>"

text \<open>
  Modelled from the spec: \<^verbatim>\<open>logger.fail\<close> (logger/logger.js is not among the sources)
  does not return: the failure is fatal and aborts the run.
\<close>

definition logger_fail :: "error \<Rightarrow> error + 'a" where
  "logger_fail e = Inl e"

text \<open>What \<^verbatim>\<open>visit\<close> does when the key is already in the node map.\<close>

definition alreadyScheduled :: "string list \<Rightarrow> string \<Rightarrow> graph \<Rightarrow> error + graph" where
  "alreadyScheduled path k g =
     (if k \<in> set path then logger_fail (CircularDependency path k) else Inr g)"

text \<open>The body of the loop over \<^verbatim>\<open>taskConfig.runsAfterEntries\<close>, for the node \<open>k\<close>.\<close>

definition runsAfterStep ::
  "visitor \<Rightarrow> host \<Rightarrow> config \<Rightarrow> string list \<Rightarrow> requested_task \<Rightarrow> workspace \<Rightarrow> string
    \<Rightarrow> string \<times> runs_after \<Rightarrow> graph \<Rightarrow> error + graph" where
  "runsAfterStep visit_fn h c path requestedTask w k entry g =
     (case entry of (upstreamScriptName, upstreamScriptConfig) \<Rightarrow>
        (case upstreamFilterPaths (c_project c) w upstreamScriptConfig of
           Inl e \<Rightarrow> Inl e
         | Inr filterPaths \<Rightarrow>
             enqueueTask visit_fn h c path
               \<lparr>rt_scriptName = upstreamScriptName, rt_extraArgs = [],
                rt_force = rt_force requestedTask, rt_filterPaths = filterPaths\<rparr>
               (Some k) g))"

text \<open>The body of the loop over the local dependencies of a \<^verbatim>\<open>dependent\<close> task.\<close>

definition dependentStep ::
  "visitor \<Rightarrow> config \<Rightarrow> string list \<Rightarrow> requested_task \<Rightarrow> string \<Rightarrow> string \<Rightarrow> graph \<Rightarrow> error + graph" where
  "dependentStep visit_fn c path requestedTask k workspaceName g =
     (case getWorkspaceByName (c_project c) workspaceName of
        None \<Rightarrow> Inl (WorkspaceNotFound workspaceName)
      | Some dependency \<Rightarrow>
          if hasScript dependency (rt_scriptName requestedTask) then
            (let depKey = c_getTaskKey c (ws_dir dependency) (rt_scriptName requestedTask)
             in visit_fn path requestedTask dependency (pushDependency (Some k) depKey g))
          else Inr g)"

text \<open>
  \<^verbatim>\<open>visit\<close> from the point where the key is known to be new: the node is stored, the
  upstream scripts and the local dependencies are visited, and the key is appended to
  \<^verbatim>\<open>sortedTaskKeys\<close>. The recursive calls go through \<open>visit_fn\<close>.
\<close>

definition visitNew :: "visitor \<Rightarrow> host \<Rightarrow> config \<Rightarrow> visitor" where
  "visitNew visit_fn h c path requestedTask w g =
     (let taskConfig = c_getTaskConfig c w (rt_scriptName requestedTask);
          k = c_getTaskKey c (ws_dir w) (rt_scriptName requestedTask);
          path' = path @ [k];
          g1 = g\<lparr>allTasks := (allTasks g)(k \<mapsto> newTask k taskConfig requestedTask w)\<rparr>
      in case for_each (runsAfterStep visit_fn h c path' requestedTask w k)
                (tc_runsAfterEntries taskConfig) g1 of
           Inl e \<Rightarrow> Inl e
         | Inr g2 \<Rightarrow>
             (case (if tc_execution taskConfig = Dependent then
                      for_each (dependentStep visit_fn c path' requestedTask k)
                        (ws_localDependencyWorkspaceNames w) g2
                    else Inr g2) of
                Inl e \<Rightarrow> Inl e
              | Inr g3 \<Rightarrow> Inr (g3\<lparr>sortedTaskKeys := sortedTaskKeys g3 @ [k]\<rparr>)))"

text \<open>
  \<open>visit\<close>, with a bound on the depth of the nesting of visits that create a node: the
  JavaScript recursion has no bound of its own. Reaching a key that is already in the map
  needs no fuel.
\<close>

primrec visit :: "nat \<Rightarrow> host \<Rightarrow> config \<Rightarrow> visitor" where
  "visit 0 = (\<lambda>h c path requestedTask w g.
     (let k = c_getTaskKey c (ws_dir w) (rt_scriptName requestedTask)
      in if allTasks g k \<noteq> None then alreadyScheduled path k g else Inl OutOfFuel))"
| "visit (Suc n) = (\<lambda>h c path requestedTask w g.
     (let k = c_getTaskKey c (ws_dir w) (rt_scriptName requestedTask)
      in if allTasks g k \<noteq> None then alreadyScheduled path k g
         else visitNew (visit n h c) h c path requestedTask w g))"

definition emptyGraph :: graph where
  "emptyGraph = \<lparr>allTasks = Map.empty, sortedTaskKeys = []\<rparr>"

text \<open>The constructor: every requested task is enqueued with an empty path.\<close>

definition TaskGraph :: "nat \<Rightarrow> host \<Rightarrow> config \<Rightarrow> requested_task list \<Rightarrow> error + graph" where
  "TaskGraph fuel h c requestedTasks =
     for_each (\<lambda>requestedTask g. enqueueTask (visit fuel h c) h c [] requestedTask None g)
       requestedTasks emptyGraph"

section \<open>The scheduler\<close>

text \<open>
  \<^verbatim>\<open>process.env.__test__FORCE_PARALLEL\<close> is absent or a string; as a condition, a string
  counts exactly when it is not empty. \<open>isTest\<close> is the imported constant and \<open>numCpus\<close>
  the length of \<^verbatim>\<open>cpus()\<close>.
\<close>

definition envIsSet :: "string option \<Rightarrow> bool" where
  "envIsSet v = (case v of None \<Rightarrow> False | Some s \<Rightarrow> s \<noteq> [])"

definition maxConcurrentTasks :: "string option \<Rightarrow> bool \<Rightarrow> nat \<Rightarrow> int" where
  "maxConcurrentTasks forceParallel isTest numCpus =
     (if envIsSet forceParallel then 2
      else if isTest then 1
      else max 1 (int numCpus - 1))"

text \<open>\<^verbatim>\<open>status.startsWith('success')\<close>\<close>

definition isSuccess :: "status \<Rightarrow> bool" where
  "isSuccess s = (s = SuccessEager \<or> s = SuccessLazy)"

text \<open>
  \<^verbatim>\<open>dependencies.every(dep => allTasks[dep].status.startsWith('success'))\<close>: it stops at the
  first dependency that is not successful, and reading the status of a key that is not in
  the map raises.
\<close>

fun everySuccess :: "(string \<rightharpoonup> scheduled_task) \<Rightarrow> string list \<Rightarrow> error + bool" where
  "everySuccess m [] = Inr True"
| "everySuccess m (dep # deps) =
     (case m dep of
        None \<Rightarrow> Inl (TypeError dep)
      | Some t \<Rightarrow> if isSuccess (t_status t) then everySuccess m deps else Inr False)"

definition isTaskReady :: "graph \<Rightarrow> string \<Rightarrow> error + bool" where
  "isTaskReady g k =
     (case allTasks g k of
        None \<Rightarrow> Inl (TypeError k)
      | Some task \<Rightarrow>
          if t_status task = Pending then everySuccess (allTasks g) (t_dependencies task)
          else Inr False)"

text \<open>\<^verbatim>\<open>Array.prototype.filter\<close> with a predicate that may raise.\<close>

fun filterKeys :: "(string \<Rightarrow> error + bool) \<Rightarrow> string list \<Rightarrow> error + string list" where
  "filterKeys p [] = Inr []"
| "filterKeys p (k # ks) =
     (case p k of
        Inl e \<Rightarrow> Inl e
      | Inr b \<Rightarrow>
          (case filterKeys p ks of
             Inl e \<Rightarrow> Inl e
           | Inr r \<Rightarrow> Inr (if b then k # r else r)))"

text \<open>
  The second filter of \<^verbatim>\<open>allReadyTaskKeys\<close>; the set \<^verbatim>\<open>unparallelizableScripts\<close> is
  threaded through the traversal.
\<close>

fun filterUnparallelizable ::
  "(string \<rightharpoonup> scheduled_task) \<Rightarrow> string set \<Rightarrow> string list \<Rightarrow> error + string list" where
  "filterUnparallelizable m unparallelizableScripts [] = Inr []"
| "filterUnparallelizable m unparallelizableScripts (k # ks) =
     (case m k of
        None \<Rightarrow> Inl (TypeError k)
      | Some t \<Rightarrow>
          if tc_parallel (t_taskConfig t) then
            (case filterUnparallelizable m unparallelizableScripts ks of
               Inl e \<Rightarrow> Inl e
             | Inr r \<Rightarrow> Inr (k # r))
          else if t_scriptName t \<in> unparallelizableScripts then
            filterUnparallelizable m unparallelizableScripts ks
          else
            (case filterUnparallelizable m (insert (t_scriptName t) unparallelizableScripts) ks of
               Inl e \<Rightarrow> Inl e
             | Inr r \<Rightarrow> Inr (k # r)))"

text \<open>The ready keys in the order of \<^verbatim>\<open>sortedTaskKeys\<close>, before \<^verbatim>\<open>.sort()\<close>.\<close>

definition readyInConstructionOrder :: "graph \<Rightarrow> error + string list" where
  "readyInConstructionOrder g =
     (case filterKeys (isTaskReady g) (sortedTaskKeys g) of
        Inl e \<Rightarrow> Inl e
      | Inr ready \<Rightarrow> filterUnparallelizable (allTasks g) {} ready)"

definition allReadyTaskKeys :: "graph \<Rightarrow> error + string list" where
  "allReadyTaskKeys g =
     (case readyInConstructionOrder g of
        Inl e \<Rightarrow> Inl e
      | Inr r \<Rightarrow> Inr (sort r))"

definition allRunningTaskKeys :: "graph \<Rightarrow> error + string list" where
  "allRunningTaskKeys g =
     filterKeys (\<lambda>k. case allTasks g k of
                       None \<Rightarrow> Inl (TypeError k)
                     | Some t \<Rightarrow> Inr (t_status t = Running))
       (sortedTaskKeys g)"

text \<open>
  \<^verbatim>\<open>this.allTasks[taskKey].status = ...\<close>. Both callers pass the key of a node of the map
  (a ready key in \<open>tick\<close>, a started key in \<open>runTask\<close>).
\<close>

definition setStatus :: "string \<Rightarrow> status \<Rightarrow> graph \<Rightarrow> graph" where
  "setStatus k st g =
     (case allTasks g k of
        None \<Rightarrow> g
      | Some t \<Rightarrow> g\<lparr>allTasks := (allTasks g)(k \<mapsto> t\<lparr>t_status := st\<rparr>)\<rparr>)"

text \<open>The loop of \<open>tick\<close> that marks the chosen tasks as running, first to last.\<close>

fun startTasks :: "string list \<Rightarrow> graph \<Rightarrow> graph" where
  "startTasks [] g = g"
| "startTasks (taskKey # rest) g = startTasks rest (setStatus taskKey Running g)"

datatype tick_result = Resolved | Waiting | Started "string list"

definition tick :: "int \<Rightarrow> graph \<Rightarrow> error + (tick_result \<times> graph)" where
  "tick maxConcurrent g =
     (case allRunningTaskKeys g of
        Inl e \<Rightarrow> Inl e
      | Inr runningTasks \<Rightarrow>
          (case allReadyTaskKeys g of
             Inl e \<Rightarrow> Inl e
           | Inr readyTasks \<Rightarrow>
               if length runningTasks = 0 \<and> length readyTasks = 0 then Inr (Resolved, g)
               else if int (length runningTasks) \<ge> maxConcurrent then Inr (Waiting, g)
               else if length readyTasks = 0 then Inr (Waiting, g)
               else
                 (let numTasksToStart =
                        nat (min (maxConcurrent - int (length runningTasks))
                                 (int (length readyTasks)))
                  in Inr (Started (take numTasksToStart readyTasks),
                          startTasks (take numTasksToStart readyTasks) g))))"

text \<open>The status \<open>runTask\<close> stores when \<^verbatim>\<open>runTaskIfNeeded\<close> has returned.\<close>

definition finalStatus :: "bool \<Rightarrow> bool \<Rightarrow> status" where
  "finalStatus didRunTask didSucceed =
     (if didSucceed then (if didRunTask then SuccessEager else SuccessLazy) else Failure)"

text \<open>
  The executions of \<^verbatim>\<open>runAllTasks\<close>. The controller is single-threaded: \<open>tick\<close> runs
  when \<^verbatim>\<open>runAllTasks\<close> is called and each time a running task has finished, and a task
  finishes only while the controller is idle. \<open>InTick\<close> marks the states inside the loop
  of \<open>tick\<close>, after some of the chosen tasks have been started. A tick that raises
  leaves the graph as it was. Of what a worker does to its task, the relation records the
  status it stores at the end; \<^verbatim>\<open>runTaskIfNeeded\<close> (not among the sources) fills in
  output files and fingerprint, which the scheduler never reads.
\<close>

datatype phase = BeforeTick | InTick | Idle

inductive reach :: "int \<Rightarrow> graph \<Rightarrow> phase \<Rightarrow> graph \<Rightarrow> bool"
  for maxConcurrent :: int and g0 :: graph where
  reach_start: "reach maxConcurrent g0 BeforeTick g0"
| reach_tick:
    "reach maxConcurrent g0 BeforeTick g \<Longrightarrow> tick maxConcurrent g = Inr (r, g')
      \<Longrightarrow> reach maxConcurrent g0 Idle g'"
| reach_tick_raises:
    "reach maxConcurrent g0 BeforeTick g \<Longrightarrow> tick maxConcurrent g = Inl e
      \<Longrightarrow> reach maxConcurrent g0 Idle g"
| reach_in_tick:
    "reach maxConcurrent g0 BeforeTick g \<Longrightarrow> tick maxConcurrent g = Inr (Started ks, g')
      \<Longrightarrow> i \<le> length ks \<Longrightarrow> reach maxConcurrent g0 InTick (startTasks (take i ks) g)"
| reach_finish:
    "reach maxConcurrent g0 Idle g \<Longrightarrow> allTasks g k = Some t \<Longrightarrow> t_status t = Running
      \<Longrightarrow> reach maxConcurrent g0 BeforeTick
            (setStatus k (finalStatus didRunTask didSucceed) g)"

text \<open>A graph as the constructor leaves it: every node is pending.\<close>

definition allPending :: "graph \<Rightarrow> bool" where
  "allPending g = (\<forall>k t. allTasks g k = Some t \<longrightarrow> t_status t = Pending)"

text \<open>The keys of the tasks whose status is \<^verbatim>\<open>running\<close>.\<close>

definition runningSet :: "graph \<Rightarrow> string set" where
  "runningSet g = {k. \<exists>t. allTasks g k = Some t \<and> t_status t = Running}"

text \<open>The key \<open>k\<close> names a task of script \<open>s\<close> whose configuration has \<^verbatim>\<open>parallel\<close> false.\<close>

definition unparallelizable :: "graph \<Rightarrow> string \<Rightarrow> string \<Rightarrow> bool" where
  "unparallelizable g s k =
     (case allTasks g k of
        None \<Rightarrow> False
      | Some t \<Rightarrow> \<not> tc_parallel (t_taskConfig t) \<and> t_scriptName t = s)"

text \<open>
  The choice of the tasks to start as the specification words it: the first of the ready
  keys in the order of \<^verbatim>\<open>sortedTaskKeys\<close>, as many as there are free slots.
\<close>

definition startedByConstructionOrder :: "int \<Rightarrow> graph \<Rightarrow> error + string list" where
  "startedByConstructionOrder maxConcurrent g =
     (case allRunningTaskKeys g of
        Inl e \<Rightarrow> Inl e
      | Inr runningTasks \<Rightarrow>
          (case readyInConstructionOrder g of
             Inl e \<Rightarrow> Inl e
           | Inr ready \<Rightarrow>
               Inr (take (nat (min (maxConcurrent - int (length runningTasks))
                                   (int (length ready)))) ready)))"

section \<open>Capturing outputs\<close>

text \<open>
  The files \<^verbatim>\<open>cacheOutputs\<close> touches. \<open>projectFiles\<close> maps a path relative to the project
  root to the file there (what \<^verbatim>\<open>statSync\<close> and the copy read); \<open>outDir\<close> is the cached
  output directory of the task, absent or a map from relative path to the copy;
  \<open>outManifest\<close> is the output manifest file, absent or its lines (path and mtime in
  milliseconds); \<open>manifestStream\<close> is the lazy write stream, not yet opened or the lines
  written to it; \<open>taskOutputFiles\<close> is the field \<^verbatim>\<open>task.outputFiles\<close>.
\<close>

record file_entry =
  f_content :: string
  f_mtime :: int

record cache_state =
  projectFiles :: "string \<rightharpoonup> file_entry"
  outDir :: "(string \<rightharpoonup> file_entry) option"
  outManifest :: "(string \<times> int) list option"
  manifestStream :: "(string \<times> int) list option"
  taskOutputFiles :: "string list"

text \<open>\<^verbatim>\<open>mkdirSync(dir, { recursive: true })\<close>: an existing directory is left as it is.\<close>

definition mkdirSync :: "cache_state \<Rightarrow> cache_state" where
  "mkdirSync s = (case outDir s of None \<Rightarrow> s\<lparr>outDir := Some Map.empty\<rparr> | Some m \<Rightarrow> s)"

definition copyFileWithMtime :: "string \<Rightarrow> file_entry \<Rightarrow> cache_state \<Rightarrow> cache_state" where
  "copyFileWithMtime p f s =
     s\<lparr>outDir := Some ((case outDir s of None \<Rightarrow> Map.empty | Some m \<Rightarrow> m)(p \<mapsto> f))\<rparr>"

definition manifestWrite :: "string \<times> int \<Rightarrow> cache_state \<Rightarrow> cache_state" where
  "manifestWrite line s =
     s\<lparr>manifestStream := Some ((case manifestStream s of None \<Rightarrow> [] | Some ls \<Rightarrow> ls) @ [line])\<rparr>"

text \<open>
  Modelled from the spec: the lazy write stream (manifest/createLazyWriteStream.js is not
  among the sources) is created on the first write and the file is put in place when the
  stream is closed.
\<close>

definition manifestClose :: "cache_state \<Rightarrow> cache_state" where
  "manifestClose s =
     (case manifestStream s of
        None \<Rightarrow> s
      | Some ls \<Rightarrow> s\<lparr>outManifest := Some ls, manifestStream := None\<rparr>)"

text \<open>The loop over the output files; the exception, if any, comes with the state it leaves.\<close>

fun copyOutputs :: "string list \<Rightarrow> cache_state \<Rightarrow> error option \<times> cache_state" where
  "copyOutputs [] s = (None, s)"
| "copyOutputs (f # rest) s =
     (if prefix ''..'' f then (Some (OutputOutsideWorkspace f), s)
      else
        (case projectFiles s f of
           None \<Rightarrow> (Some (StatFailed f), s)
         | Some st \<Rightarrow>
             copyOutputs rest (manifestWrite (f, f_mtime st) (copyFileWithMtime f st s))))"

text \<open>\<^verbatim>\<open>rimraf(outDir)\<close> and \<^verbatim>\<open>rimraf(outManifestPath)\<close>\<close>

definition rimrafOutDir :: "cache_state \<Rightarrow> cache_state" where
  "rimrafOutDir s = s\<lparr>outDir := None\<rparr>"

definition rimrafOutManifest :: "cache_state \<Rightarrow> cache_state" where
  "rimrafOutManifest s = s\<lparr>outManifest := None\<rparr>"

text \<open>\<^verbatim>\<open>createLazyWriteStream(outManifestPath)\<close>: a stream to which nothing has been written.\<close>

definition createLazyWriteStream :: "cache_state \<Rightarrow> cache_state" where
  "createLazyWriteStream s = s\<lparr>manifestStream := None\<rparr>"

text \<open>
  \<^verbatim>\<open>cacheOutputs\<close>; \<open>outputFiles\<close> is what \<^verbatim>\<open>getOutputFiles(tasks, task)\<close> returned
  (\<open>None\<close> for no list). The result is the exception raised, if any, and the state left.
\<close>

definition cacheOutputs :: "string list option \<Rightarrow> cache_state \<Rightarrow> error option \<times> cache_state" where
  "cacheOutputs outputFiles s0 =
     (let s1 = rimrafOutDir s0;
          s2 = rimrafOutManifest s1
      in case outputFiles of
           None \<Rightarrow> (None, s2\<lparr>taskOutputFiles := []\<rparr>)
         | Some files \<Rightarrow>
             if length files = 0 then (None, s2\<lparr>taskOutputFiles := []\<rparr>)
             else
               (let s3 = s2\<lparr>taskOutputFiles := files\<rparr>;
                    s4 = mkdirSync s3;
                    s5 = createLazyWriteStream s4
                in case copyOutputs files s5 of
                     (Some e, s6) \<Rightarrow> (Some e, s6)
                   | (None, s6) \<Rightarrow> (None, manifestClose s6)))"

section \<open>Invariants of the construction\<close>

text \<open>
  The predicates below are used in the proofs only. \<open>graphInv path g\<close> describes the graph
  while the keys of \<open>path\<close> are being visited: the finished keys are the sorted list,
  the keys of the map are the finished keys and the keys of the path, and every finished
  key comes after its dependencies.
\<close>

definition depsOf :: "graph \<Rightarrow> string \<Rightarrow> string list" where
  "depsOf g k = (case allTasks g k of None \<Rightarrow> [] | Some t \<Rightarrow> t_dependencies t)"

definition topoOrdered :: "graph \<Rightarrow> bool" where
  "topoOrdered g =
     (\<forall>i<length (sortedTaskKeys g).
        set (depsOf g (sortedTaskKeys g ! i)) \<subseteq> set (take i (sortedTaskKeys g)))"

definition graphInv :: "string list \<Rightarrow> graph \<Rightarrow> bool" where
  "graphInv path g =
     (distinct (sortedTaskKeys g) \<and>
      dom (allTasks g) = set (sortedTaskKeys g) \<union> set path \<and>
      set path \<inter> set (sortedTaskKeys g) = {} \<and>
      topoOrdered g)"

definition ownerOk :: "string list \<Rightarrow> string option \<Rightarrow> graph \<Rightarrow> bool" where
  "ownerOk path owner g =
     (case owner of
        None \<Rightarrow> True
      | Some node \<Rightarrow> node \<in> set path \<and> set (depsOf g node) \<subseteq> set (sortedTaskKeys g))"

definition stepPost :: "string list \<Rightarrow> string option \<Rightarrow> graph \<Rightarrow> graph \<Rightarrow> bool" where
  "stepPost path owner g g' =
     (graphInv path g' \<and> ownerOk path owner g' \<and>
      set (sortedTaskKeys g) \<subseteq> set (sortedTaskKeys g') \<and>
      (\<forall>q\<in>set path. Some q \<noteq> owner \<longrightarrow> allTasks g' q = allTasks g q))"

definition visitorOk :: "config \<Rightarrow> visitor \<Rightarrow> bool" where
  "visitorOk c v =
     (\<forall>path rt w g g'. graphInv path g \<longrightarrow> v path rt w g = Inr g' \<longrightarrow>
        graphInv path g' \<and>
        c_getTaskKey c (ws_dir w) (rt_scriptName rt) \<in> set (sortedTaskKeys g') \<and>
        set (sortedTaskKeys g) \<subseteq> set (sortedTaskKeys g') \<and>
        (\<forall>q\<in>set path. allTasks g' q = allTasks g q))"

text \<open>
  \<open>keepsPending v\<close>: the visitor returns a graph of pending nodes when it is given one.
  \<open>agreesUpTo v v'\<close>: wherever \<open>v\<close> does not run out of fuel, \<open>v'\<close> returns what \<open>v\<close>
  returns.
\<close>

definition keepsPending :: "visitor \<Rightarrow> bool" where
  "keepsPending v = (\<forall>path rt w g g'. allPending g \<longrightarrow> v path rt w g = Inr g' \<longrightarrow> allPending g')"

definition agreesUpTo :: "visitor \<Rightarrow> visitor \<Rightarrow> bool" where
  "agreesUpTo v v' = (\<forall>path rt w g. v path rt w g \<noteq> Inl OutOfFuel \<longrightarrow> v' path rt w g = v path rt w g)"

section \<open>A sample project\<close>

text \<open>
  Three workspaces \<open>a\<close>, \<open>b\<close> and \<open>c\<close> under \<open>/r\<close>, where \<open>a\<close> depends on \<open>c\<close>. The
  script \<open>build\<close> is \<^verbatim>\<open>dependent\<close>; the script \<open>test\<close> runs after \<open>build\<close> of the
  same workspace. The host functions are simple stand-ins: a pattern matches the directory
  equal to it.
\<close>

definition exWorkspace :: "string \<Rightarrow> string list \<Rightarrow> workspace" where
  "exWorkspace n deps =
     \<lparr>ws_dir = ''/r/'' @ n, ws_name = n,
      ws_scripts = [''build'' \<mapsto> ''make'', ''test'' \<mapsto> ''make test''],
      ws_localDependencyWorkspaceNames = deps\<rparr>"

definition exProject :: project where
  "exProject =
     \<lparr>p_root = \<lparr>ws_dir = ''/r'', ws_name = ''root'', ws_scripts = Map.empty,
                ws_localDependencyWorkspaceNames = []\<rparr>,
      p_workspaces = [exWorkspace ''a'' [''c''], exWorkspace ''b'' [], exWorkspace ''c'' []]\<rparr>"

definition exConfig :: config where
  "exConfig =
     \<lparr>c_project = exProject,
      c_getTaskConfig = (\<lambda>w s.
         if s = ''test'' then
           \<lparr>tc_runsAfterEntries = [(''build'', \<lparr>ra_in = SelfOnly, ra_usesOutput = True\<rparr>)],
            tc_execution = Independent, tc_parallel = True\<rparr>
         else \<lparr>tc_runsAfterEntries = [], tc_execution = Dependent, tc_parallel = True\<rparr>),
      c_getTaskKey = (\<lambda>d s. s @ ''::'' @ d),
      c_isTopLevelScript = (\<lambda>s. False)\<rparr>"

definition exHost :: host where
  "exHost =
     \<lparr>h_isAbsolute = (\<lambda>p. take 1 p = ''/''),
      h_join = (\<lambda>a b. a @ ''/'' @ b),
      h_isMatch = (\<lambda>p d. p = d)\<rparr>"

definition exRequest :: "string \<Rightarrow> requested_task" where
  "exRequest s = \<lparr>rt_scriptName = s, rt_extraArgs = [], rt_force = False, rt_filterPaths = []\<rparr>"

definition exBuildGraph :: graph where
  "exBuildGraph = projr (TaskGraph 3 exHost exConfig [exRequest ''build''])"

text \<open>A configuration in which \<open>build\<close> and \<open>test\<close> of a workspace run after each other.\<close>

definition exCyclicConfig :: config where
  "exCyclicConfig =
     \<lparr>c_project = exProject,
      c_getTaskConfig = (\<lambda>w s.
         \<lparr>tc_runsAfterEntries =
            [(if s = ''build'' then ''test'' else ''build'', \<lparr>ra_in = SelfOnly, ra_usesOutput = False\<rparr>)],
          tc_execution = Independent, tc_parallel = True\<rparr>),
      c_getTaskKey = (\<lambda>d s. s @ ''::'' @ d),
      c_isTopLevelScript = (\<lambda>s. False)\<rparr>"

section \<open>Target resolution, as the specification words it\<close>

text \<open>
  \<open>declaresScript\<close>: the scripts of the workspace have an entry for the name.
  \<open>candidateDirs\<close> is the candidate set of the specification: all workspace directories
  for an empty filter, else the union over the patterns of the directories each pattern
  matches. \<open>specTargets\<close> is the set of target workspaces of the specification.
  \<open>enqueueTargets\<close> lists the workspaces on which the loop of \<^verbatim>\<open>enqueueTask\<close> calls
  \<^verbatim>\<open>visit\<close>, in the order of the calls.
\<close>

definition declaresScript :: "workspace \<Rightarrow> string \<Rightarrow> bool" where
  "declaresScript w s = (ws_scripts w s \<noteq> None)"

definition candidateDirs :: "host \<Rightarrow> config \<Rightarrow> string list \<Rightarrow> string set" where
  "candidateDirs h c filterPaths =
     (if filterPaths = [] then set (allWorkspaceDirs (c_project c))
      else (\<Union>pattern\<in>set filterPaths.
              {d \<in> set (allWorkspaceDirs (c_project c)).
                 h_isMatch h (if h_isAbsolute h pattern then pattern
                              else h_join h (ws_dir (p_root (c_project c))) pattern) d}))"

definition specTargets :: "host \<Rightarrow> config \<Rightarrow> requested_task \<Rightarrow> workspace set" where
  "specTargets h c rt =
     (if c_isTopLevelScript c (rt_scriptName rt) then {p_root (c_project c)}
      else {w. \<exists>d\<in>candidateDirs h c (rt_filterPaths rt).
                 getWorkspaceByDir (c_project c) d = Some w \<and>
                 declaresScript w (rt_scriptName rt)})"

definition enqueueTargets :: "host \<Rightarrow> config \<Rightarrow> requested_task \<Rightarrow> workspace list" where
  "enqueueTargets h c rt =
     (if c_isTopLevelScript c (rt_scriptName rt) then [p_root (c_project c)]
      else concat (map (\<lambda>d. case getWorkspaceByDir (c_project c) d of
                               None \<Rightarrow> []
                             | Some w \<Rightarrow> if hasScript w (rt_scriptName rt) then [w] else [])
                     (filterPackageDirs h (ws_dir (p_root (c_project c))) (c_project c)
                        (rt_filterPaths rt))))"

section \<open>The ready list, as the amended specification words it\<close>

text \<open>
  \<open>conflicts g k' k\<close>: both keys name tasks whose configuration has \<^verbatim>\<open>parallel\<close> false,
  of the same script name. \<open>keptAfter g earlier ks\<close> goes through \<open>ks\<close> in order and keeps
  a key unless a key before it, in \<open>earlier\<close> or in \<open>ks\<close>, conflicts with it.
  \<open>readyBySpec\<close> is the ready list: the ready keys in the order of \<^verbatim>\<open>sortedTaskKeys\<close>,
  of which a task without \<^verbatim>\<open>parallel\<close> is kept only when it is the first of its script
  name in that order.
\<close>

definition conflicts :: "graph \<Rightarrow> string \<Rightarrow> string \<Rightarrow> bool" where
  "conflicts g k' k =
     (case (allTasks g k', allTasks g k) of
        (Some t', Some t) \<Rightarrow>
          \<not> tc_parallel (t_taskConfig t') \<and> \<not> tc_parallel (t_taskConfig t) \<and>
          t_scriptName t' = t_scriptName t
      | _ \<Rightarrow> False)"

fun keptAfter :: "graph \<Rightarrow> string list \<Rightarrow> string list \<Rightarrow> string list" where
  "keptAfter g earlier [] = []"
| "keptAfter g earlier (k # ks) =
     (if \<exists>k'\<in>set earlier. conflicts g k' k then [] else [k]) @ keptAfter g (earlier @ [k]) ks"

definition readyBySpec :: "graph \<Rightarrow> string list" where
  "readyBySpec g =
     keptAfter g [] (filter (\<lambda>k. isTaskReady g k = Inr True) (sortedTaskKeys g))"

section \<open>Invariants of the scheduler\<close>

text \<open>
  Used in the proofs only: a task that is no longer pending has all its dependencies in a
  success status, and its key is in the sorted key list.
\<close>

definition startedAfterDeps :: "graph \<Rightarrow> bool" where
  "startedAfterDeps g =
     (\<forall>k t. allTasks g k = Some t \<and> t_status t \<noteq> Pending \<longrightarrow>
        (\<forall>d\<in>set (t_dependencies t). \<exists>td. allTasks g d = Some td \<and> isSuccess (t_status td)))"

definition startedInList :: "graph \<Rightarrow> bool" where
  "startedInList g =
     (\<forall>k t. allTasks g k = Some t \<and> t_status t \<noteq> Pending \<longrightarrow> k \<in> set (sortedTaskKeys g))"

section \<open>Sample runs of the scheduler\<close>

text \<open>
  A configuration in which no task is parallel; one in which \<open>build\<close> depends on the
  local dependencies and is not parallel while \<open>test\<close> is, with the graph of a request
  for \<open>test\<close> and \<open>build\<close>; and the states of a run on the graph of \<open>build\<close> with two
  slots: \<open>b\<close> and \<open>c\<close> are started, \<open>c\<close> fails, \<open>b\<close> succeeds.
\<close>

definition exSerialConfig :: config where
  "exSerialConfig =
     \<lparr>c_project = exProject,
      c_getTaskConfig = (\<lambda>w s.
         \<lparr>tc_runsAfterEntries = [], tc_execution = Independent, tc_parallel = False\<rparr>),
      c_getTaskKey = (\<lambda>d s. s @ ''::'' @ d),
      c_isTopLevelScript = (\<lambda>s. False)\<rparr>"

definition exMixedConfig :: config where
  "exMixedConfig =
     \<lparr>c_project = exProject,
      c_getTaskConfig = (\<lambda>w s.
         if s = ''build'' then
           \<lparr>tc_runsAfterEntries = [], tc_execution = Dependent, tc_parallel = False\<rparr>
         else \<lparr>tc_runsAfterEntries = [], tc_execution = Independent, tc_parallel = True\<rparr>),
      c_getTaskKey = (\<lambda>d s. s @ ''::'' @ d),
      c_isTopLevelScript = (\<lambda>s. False)\<rparr>"

definition exMixedGraph :: graph where
  "exMixedGraph = projr (TaskGraph 3 exHost exMixedConfig [exRequest ''test'', exRequest ''build''])"

definition exSerialGraph :: graph where
  "exSerialGraph = projr (TaskGraph 3 exHost exSerialConfig [exRequest ''build''])"

definition exStartedGraph :: graph where
  "exStartedGraph = startTasks [''build::/r/b'', ''build::/r/c''] exBuildGraph"

definition exFailedGraph :: graph where
  "exFailedGraph = setStatus ''build::/r/c'' Failure exStartedGraph"

definition exResolvedGraph :: graph where
  "exResolvedGraph = setStatus ''build::/r/b'' SuccessEager exFailedGraph"

section \<open>A sample output capture\<close>

text \<open>
  A task whose earlier outputs are cached, and a new list of output files whose second
  entry lies outside the project root.
\<close>

definition exFile :: file_entry where
  "exFile = \<lparr>f_content = ''console.log(1)'', f_mtime = 1700000000000\<rparr>"

definition exOldFile :: file_entry where
  "exOldFile = \<lparr>f_content = ''old'', f_mtime = 1600000000000\<rparr>"

definition exCache :: cache_state where
  "exCache =
     \<lparr>projectFiles = [''packages/a/dist/a.js'' \<mapsto> exFile],
      outDir = Some [''packages/a/dist/old.js'' \<mapsto> exOldFile],
      outManifest = Some [(''packages/a/dist/old.js'', 1600000000000)],
      manifestStream = None,
      taskOutputFiles = []\<rparr>"

definition exOutputFiles :: "string list" where
  "exOutputFiles = [''packages/a/dist/a.js'', ''../outside.txt'']"

section \<open>Auxiliary notions for the output capture\<close>

text \<open>
  Used in the proofs only. \<open>copiedOnly files s s'\<close>: the cached output directory of \<open>s'\<close>
  exists, and each of its entries is a copy of a project file of \<open>s\<close> that is named in
  \<open>files\<close> and does not begin with two dots. \<open>freshCache files s\<close> is the state in which
  the loop over the output files starts.
\<close>

definition copiedOnly :: "string list \<Rightarrow> cache_state \<Rightarrow> cache_state \<Rightarrow> bool" where
  "copiedOnly files s s' =
     (\<exists>m. outDir s' = Some m \<and>
          (\<forall>p. m p \<noteq> None \<longrightarrow> p \<in> set files \<and> \<not> prefix ''..'' p \<and> m p = projectFiles s p))"

definition freshCache :: "string list \<Rightarrow> cache_state \<Rightarrow> cache_state" where
  "freshCache files s =
     createLazyWriteStream
       (mkdirSync ((rimrafOutManifest (rimrafOutDir s))\<lparr>taskOutputFiles := files\<rparr>))"

section \<open>The constructed graph is topologically ordered\<close>

lemma for_each_inv:
  assumes "for_each f xs s = Inr s'" and "P s"
    and "\<And>x t t'. x \<in> set xs \<Longrightarrow> P t \<Longrightarrow> f x t = Inr t' \<Longrightarrow> P t'"
  shows "P s'"
  using assms
proof (induction xs arbitrary: s)
  case Nil
  then show ?case by simp
next
  case (Cons x xs)
  from Cons.prems(1) obtain t where fx: "f x s = Inr t" and rest: "for_each f xs t = Inr s'"
    by (auto split: sum.splits)
  have "P t" using Cons.prems(3)[of x s t] Cons.prems(2) fx by simp
  moreover have "\<And>y t t'. y \<in> set xs \<Longrightarrow> P t \<Longrightarrow> f y t = Inr t' \<Longrightarrow> P t'"
    using Cons.prems(3) by (meson list.set_intros(2))
  ultimately show ?case using Cons.IH[OF rest] by blast
qed

lemma stepPost_refl: "graphInv path g \<Longrightarrow> ownerOk path owner g \<Longrightarrow> stepPost path owner g g"
  by (simp add: stepPost_def)

lemma stepPost_trans:
  "stepPost path owner g g' \<Longrightarrow> stepPost path owner g' g'' \<Longrightarrow> stepPost path owner g g''"
  by (auto simp: stepPost_def)

lemma pushDependency_None [simp]: "pushDependency None k g = g"
  by (simp add: pushDependency_def)

lemma sorted_pushDependency [simp]:
  "sortedTaskKeys (pushDependency owner k g) = sortedTaskKeys g"
  by (simp add: pushDependency_def split: option.splits)

lemma dom_pushDependency [simp]: "dom (allTasks (pushDependency owner k g)) = dom (allTasks g)"
  by (auto simp: pushDependency_def split: option.splits if_splits)

lemma allTasks_pushDependency_other:
  "Some q \<noteq> owner \<Longrightarrow> allTasks (pushDependency owner k g) q = allTasks g q"
  by (auto simp: pushDependency_def split: option.splits)

lemma depsOf_pushDependency_other:
  "Some q \<noteq> owner \<Longrightarrow> depsOf (pushDependency owner k g) q = depsOf g q"
  by (simp add: depsOf_def allTasks_pushDependency_other)

lemma depsOf_pushDependency_owner:
  "node \<in> dom (allTasks g) \<Longrightarrow> depsOf (pushDependency (Some node) k g) node = depsOf g node @ [k]"
  by (auto simp: depsOf_def pushDependency_def)

lemma graphInv_pushDependency:
  assumes "graphInv path g" and "case owner of None \<Rightarrow> True | Some node \<Rightarrow> node \<in> set path"
  shows "graphInv path (pushDependency owner k g)"
proof (cases owner)
  case None
  then show ?thesis using assms by simp
next
  case (Some node)
  with assms have np: "node \<in> set path" by simp
  have nots: "node \<notin> set (sortedTaskKeys g)" using assms(1) np by (auto simp: graphInv_def)
  have "\<And>i. i < length (sortedTaskKeys g) \<Longrightarrow>
          depsOf (pushDependency owner k g) (sortedTaskKeys g ! i) = depsOf g (sortedTaskKeys g ! i)"
    using nots Some by (intro depsOf_pushDependency_other) auto
  then show ?thesis using assms(1) by (simp add: graphInv_def topoOrdered_def)
qed

lemma push_visit_step:
  assumes v: "visitorOk c v"
    and inv: "graphInv path g"
    and own: "ownerOk path owner g"
    and run: "v path rt w (pushDependency owner (c_getTaskKey c (ws_dir w) (rt_scriptName rt)) g) = Inr g'"
  shows "stepPost path owner g g'"
proof -
  let ?k = "c_getTaskKey c (ws_dir w) (rt_scriptName rt)"
  let ?g1 = "pushDependency owner ?k g"
  have inv1: "graphInv path ?g1"
    using inv own by (intro graphInv_pushDependency) (auto simp: ownerOk_def split: option.splits)
  from v inv1 run have post: "graphInv path g'" "?k \<in> set (sortedTaskKeys g')"
    "set (sortedTaskKeys ?g1) \<subseteq> set (sortedTaskKeys g')" "\<forall>q\<in>set path. allTasks g' q = allTasks ?g1 q"
    unfolding visitorOk_def by blast+
  have "ownerOk path owner g'"
  proof (cases owner)
    case None
    then show ?thesis by (simp add: ownerOk_def)
  next
    case (Some node)
    with own have np: "node \<in> set path" and sub: "set (depsOf g node) \<subseteq> set (sortedTaskKeys g)"
      by (auto simp: ownerOk_def)
    have "node \<in> dom (allTasks g)" using inv np by (auto simp: graphInv_def)
    then have "depsOf ?g1 node = depsOf g node @ [?k]"
      using Some by (simp add: depsOf_pushDependency_owner)
    moreover have "depsOf g' node = depsOf ?g1 node" using post(4) np by (simp add: depsOf_def)
    ultimately show ?thesis using Some np sub post(2,3) by (auto simp: ownerOk_def)
  qed
  moreover have "\<forall>q\<in>set path. Some q \<noteq> owner \<longrightarrow> allTasks g' q = allTasks g q"
    using post(4) by (simp add: allTasks_pushDependency_other)
  ultimately show ?thesis using post(1,3) by (simp add: stepPost_def)
qed

lemma getWorkspaceByDir_dir: "getWorkspaceByDir p d = Some w \<Longrightarrow> ws_dir w = d"
  by (auto simp: getWorkspaceByDir_def find_Some_iff)

lemma enqueueTask_step:
  assumes v: "visitorOk c v"
    and inv: "graphInv path g"
    and own: "ownerOk path owner g"
    and run: "enqueueTask v h c path rt owner g = Inr g'"
  shows "stepPost path owner g g'"
proof (cases "c_isTopLevelScript c (rt_scriptName rt)")
  case True
  with run show ?thesis
    using push_visit_step[OF v inv own] by (simp add: enqueueTask_def Let_def)
next
  case False
  let ?f = "\<lambda>d g'.
            (case getWorkspaceByDir (c_project c) d of
               None \<Rightarrow> Inl (WorkspaceNotFound d)
             | Some w \<Rightarrow>
                 if hasScript w (rt_scriptName rt) then
                   (let k = c_getTaskKey c d (rt_scriptName rt)
                    in v path rt w (pushDependency owner k g'))
                 else Inr g')"
  from False run have loop: "for_each ?f
      (filterPackageDirs h (ws_dir (p_root (c_project c))) (c_project c) (rt_filterPaths rt)) g = Inr g'"
    by (simp add: enqueueTask_def)
  show ?thesis
  proof (rule for_each_inv[OF loop, where P = "stepPost path owner g"])
    show "stepPost path owner g g" using inv own by (rule stepPost_refl)
  next
    fix d t t'
    assume P: "stepPost path owner g t" and step: "?f d t = Inr t'"
    have "stepPost path owner t t'"
    proof (cases "getWorkspaceByDir (c_project c) d")
      case None
      with step show ?thesis by simp
    next
      case (Some w)
      show ?thesis
      proof (cases "hasScript w (rt_scriptName rt)")
        case True
        have "ws_dir w = d" using Some by (rule getWorkspaceByDir_dir)
        with step Some True
        have "v path rt w (pushDependency owner (c_getTaskKey c (ws_dir w) (rt_scriptName rt)) t) = Inr t'"
          by (simp add: Let_def)
        moreover have "graphInv path t" "ownerOk path owner t" using P by (simp_all add: stepPost_def)
        ultimately show ?thesis using push_visit_step[OF v] by blast
      next
        case False
        with step Some have "t' = t" by simp
        then show ?thesis using P by (simp add: stepPost_def)
      qed
    qed
    with P show "stepPost path owner g t'" by (rule stepPost_trans)
  qed
qed


lemma alreadyScheduled_ok:
  assumes inv: "graphInv path g" and known: "allTasks g k \<noteq> None"
    and run: "alreadyScheduled path k g = Inr g'"
  shows "g' = g \<and> k \<in> set (sortedTaskKeys g)"
proof -
  from run have "k \<notin> set path" and "g' = g"
    by (auto simp: alreadyScheduled_def logger_fail_def split: if_splits)
  moreover have "k \<in> dom (allTasks g)" using known by auto
  ultimately show ?thesis using inv by (auto simp: graphInv_def)
qed

lemma runsAfterStep_ok:
  assumes "visitorOk c v" and "graphInv path g" and "ownerOk path (Some k) g"
    and "runsAfterStep v h c path rt w k entry g = Inr g'"
  shows "stepPost path (Some k) g g'"
  using assms
  by (auto simp: runsAfterStep_def split: prod.splits sum.splits intro: enqueueTask_step)

lemma dependentStep_ok:
  assumes v: "visitorOk c v" and inv: "graphInv path g" and own: "ownerOk path (Some k) g"
    and run: "dependentStep v c path rt k workspaceName g = Inr g'"
  shows "stepPost path (Some k) g g'"
proof (cases "getWorkspaceByName (c_project c) workspaceName")
  case None
  with run show ?thesis by (simp add: dependentStep_def)
next
  case (Some dependency)
  show ?thesis
  proof (cases "hasScript dependency (rt_scriptName rt)")
    case True
    with run Some show ?thesis
      using push_visit_step[OF v inv own] by (simp add: dependentStep_def Let_def)
  next
    case False
    with run Some have "g' = g" by (simp add: dependentStep_def)
    then show ?thesis using inv own by (simp add: stepPost_refl)
  qed
qed

lemma loop_stepPost:
  assumes loop: "for_each f xs g = Inr g'"
    and inv: "graphInv path g" and own: "ownerOk path owner g"
    and step: "\<And>x t t'. graphInv path t \<Longrightarrow> ownerOk path owner t \<Longrightarrow> f x t = Inr t'
                 \<Longrightarrow> stepPost path owner t t'"
  shows "stepPost path owner g g'"
proof (rule for_each_inv[OF loop, where P = "stepPost path owner g"])
  show "stepPost path owner g g" using inv own by (rule stepPost_refl)
next
  fix x t t'
  assume P: "stepPost path owner g t" and fx: "f x t = Inr t'"
  from P have "graphInv path t" and "ownerOk path owner t" by (simp_all add: stepPost_def)
  then have "stepPost path owner t t'" using fx by (rule step)
  with P show "stepPost path owner g t'" by (rule stepPost_trans)
qed

lemma topoOrdered_snoc:
  assumes "topoOrdered g" and "set (depsOf g k) \<subseteq> set (sortedTaskKeys g)"
  shows "topoOrdered (g\<lparr>sortedTaskKeys := sortedTaskKeys g @ [k]\<rparr>)"
  using assms
  by (auto simp: topoOrdered_def depsOf_def nth_append less_Suc_eq)

lemma visitNew_ok:
  assumes v: "visitorOk c v" and inv: "graphInv path g"
    and new: "allTasks g (c_getTaskKey c (ws_dir w) (rt_scriptName rt)) = None"
    and run: "visitNew v h c path rt w g = Inr g'"
  shows "graphInv path g' \<and>
         c_getTaskKey c (ws_dir w) (rt_scriptName rt) \<in> set (sortedTaskKeys g') \<and>
         set (sortedTaskKeys g) \<subseteq> set (sortedTaskKeys g') \<and>
         (\<forall>q\<in>set path. allTasks g' q = allTasks g q)"
proof -
  define k where "k = c_getTaskKey c (ws_dir w) (rt_scriptName rt)"
  define tc where "tc = c_getTaskConfig c w (rt_scriptName rt)"
  define g1 where "g1 = g\<lparr>allTasks := (allTasks g)(k \<mapsto> newTask k tc rt w)\<rparr>"
  from run obtain g2 g3 where
    loop1: "for_each (runsAfterStep v h c (path @ [k]) rt w k) (tc_runsAfterEntries tc) g1 = Inr g2"
    and loop2: "(if tc_execution tc = Dependent then
                   for_each (dependentStep v c (path @ [k]) rt k)
                     (ws_localDependencyWorkspaceNames w) g2
                 else Inr g2) = Inr g3"
    and res: "g' = g3\<lparr>sortedTaskKeys := sortedTaskKeys g3 @ [k]\<rparr>"
    unfolding visitNew_def Let_def k_def tc_def g1_def
    by (auto split: sum.splits)
  have knew: "k \<notin> dom (allTasks g)" using new by (auto simp: k_def)
  then have kpath: "k \<notin> set path" and ksorted: "k \<notin> set (sortedTaskKeys g)"
    using inv by (auto simp: graphInv_def)
  have deps1: "\<And>q. q \<noteq> k \<Longrightarrow> depsOf g1 q = depsOf g q"
    by (simp add: depsOf_def g1_def)
  have inv1: "graphInv (path @ [k]) g1"
  proof -
    have "topoOrdered g1"
      using inv ksorted deps1 unfolding graphInv_def topoOrdered_def
      by (simp add: g1_def) (metis nth_mem)
    then show ?thesis using inv ksorted by (auto simp: graphInv_def g1_def)
  qed
  have own1: "ownerOk (path @ [k]) (Some k) g1"
    by (simp add: ownerOk_def depsOf_def g1_def newTask_def)
  have P2: "stepPost (path @ [k]) (Some k) g1 g2"
    using loop1 inv1 own1 by (rule loop_stepPost) (rule runsAfterStep_ok[OF v])
  then have inv2: "graphInv (path @ [k]) g2" and own2: "ownerOk (path @ [k]) (Some k) g2"
    by (simp_all add: stepPost_def)
  have P23: "stepPost (path @ [k]) (Some k) g2 g3"
  proof (cases "tc_execution tc = Dependent")
    case True
    with loop2 have "for_each (dependentStep v c (path @ [k]) rt k)
                       (ws_localDependencyWorkspaceNames w) g2 = Inr g3" by simp
    then show ?thesis using inv2 own2 by (rule loop_stepPost) (rule dependentStep_ok[OF v])
  next
    case False
    with loop2 have "g3 = g2" by simp
    then show ?thesis using inv2 own2 by (simp add: stepPost_refl)
  qed
  have P3: "stepPost (path @ [k]) (Some k) g1 g3" using P2 P23 by (rule stepPost_trans)
  then have inv3: "graphInv (path @ [k]) g3"
    and deps3: "set (depsOf g3 k) \<subseteq> set (sortedTaskKeys g3)"
    and mono3: "set (sortedTaskKeys g1) \<subseteq> set (sortedTaskKeys g3)"
    and same3: "\<forall>q\<in>set path. allTasks g3 q = allTasks g1 q"
    using kpath by (auto simp: stepPost_def ownerOk_def)
  have k3: "k \<notin> set (sortedTaskKeys g3)" using inv3 by (auto simp: graphInv_def)
  have "topoOrdered g'"
    using inv3 deps3 unfolding res graphInv_def by (intro topoOrdered_snoc) auto
  then have "graphInv path g'"
    using inv3 k3 kpath unfolding res graphInv_def by auto
  moreover have "k \<in> set (sortedTaskKeys g')" by (simp add: res)
  moreover have "set (sortedTaskKeys g) \<subseteq> set (sortedTaskKeys g')"
    using mono3 by (auto simp: res g1_def)
  moreover have "\<forall>q\<in>set path. allTasks g' q = allTasks g q"
    using same3 kpath by (auto simp: res g1_def)
  ultimately show ?thesis by (simp add: k_def)
qed

lemma visit_ok: "visitorOk c (visit n h c)"
proof (induction n)
  case 0
  show ?case
    unfolding visitorOk_def
    by (auto simp: Let_def split: if_splits dest: alreadyScheduled_ok)
next
  case (Suc n)
  show ?case
    unfolding visitorOk_def
  proof (intro allI impI)
    fix path rt w g g'
    assume inv: "graphInv path g" and run: "visit (Suc n) h c path rt w g = Inr g'"
    let ?k = "c_getTaskKey c (ws_dir w) (rt_scriptName rt)"
    show "graphInv path g' \<and> ?k \<in> set (sortedTaskKeys g') \<and>
          set (sortedTaskKeys g) \<subseteq> set (sortedTaskKeys g') \<and>
          (\<forall>q\<in>set path. allTasks g' q = allTasks g q)"
    proof (cases "allTasks g ?k = None")
      case True
      with run have "visitNew (visit n h c) h c path rt w g = Inr g'" by (simp add: Let_def)
      with Suc inv True show ?thesis by (rule visitNew_ok)
    next
      case False
      with run have "alreadyScheduled path ?k g = Inr g'" by (simp add: Let_def)
      with inv False have "g' = g \<and> ?k \<in> set (sortedTaskKeys g)" by (rule alreadyScheduled_ok)
      then show ?thesis using inv by simp
    qed
  qed
qed

lemma graphInv_empty: "graphInv [] emptyGraph"
  by (simp add: graphInv_def emptyGraph_def topoOrdered_def)

lemma TaskGraph_graphInv:
  assumes "TaskGraph fuel h c requestedTasks = Inr g"
  shows "graphInv [] g"
proof -
  have loop: "for_each (\<lambda>requestedTask g. enqueueTask (visit fuel h c) h c [] requestedTask None g)
                requestedTasks emptyGraph = Inr g"
    using assms by (simp add: TaskGraph_def)
  have "stepPost [] None emptyGraph g"
    using loop graphInv_empty
  proof (rule loop_stepPost)
    show "ownerOk [] None emptyGraph" by (simp add: ownerOk_def)
  next
    fix x t t'
    assume "graphInv [] t" "ownerOk [] None t" "enqueueTask (visit fuel h c) h c [] x None t = Inr t'"
    then show "stepPost [] None t t'" using enqueueTask_step[OF visit_ok] by blast
  qed
  then show ?thesis by (simp add: stepPost_def)
qed

text \<open>
  Claim C1. Whenever the construction of the task graph returns a graph (no cycle error,
  no failed lookup), the sorted key list has no duplicates and holds exactly the keys of
  the node map, every dependency key of every node is a key of the node map, and every
  dependency key of a node stands at a smaller index of the sorted key list than the
  node's own key.
\<close>

theorem TaskGraph_topological_order:
  assumes "TaskGraph fuel h c requestedTasks = Inr g"
  shows "distinct (sortedTaskKeys g) \<and>
         dom (allTasks g) = set (sortedTaskKeys g) \<and>
         (\<forall>k t d. allTasks g k = Some t \<and> d \<in> set (t_dependencies t) \<longrightarrow> d \<in> dom (allTasks g)) \<and>
         (\<forall>i t d. i < length (sortedTaskKeys g) \<and> allTasks g (sortedTaskKeys g ! i) = Some t \<and>
                   d \<in> set (t_dependencies t) \<longrightarrow> (\<exists>j<i. sortedTaskKeys g ! j = d))"
proof -
  have inv: "graphInv [] g" using assms by (rule TaskGraph_graphInv)
  then have d: "distinct (sortedTaskKeys g)" and dm: "dom (allTasks g) = set (sortedTaskKeys g)"
    and topo: "topoOrdered g"
    by (simp_all add: graphInv_def)
  have before: "\<exists>j<i. sortedTaskKeys g ! j = d"
    if "i < length (sortedTaskKeys g)" "allTasks g (sortedTaskKeys g ! i) = Some t"
       "d \<in> set (t_dependencies t)" for i t d
  proof -
    have "d \<in> set (take i (sortedTaskKeys g))"
      using topo that unfolding topoOrdered_def depsOf_def by force
    then show ?thesis using that(1) by (auto simp: in_set_conv_nth)
  qed
  have resolves: "d \<in> dom (allTasks g)" if "allTasks g k = Some t" "d \<in> set (t_dependencies t)" for k t d
  proof -
    have "k \<in> set (sortedTaskKeys g)" using that(1) dm by auto
    then obtain i where i: "i < length (sortedTaskKeys g)" "sortedTaskKeys g ! i = k"
      by (auto simp: in_set_conv_nth)
    with before[of i t d] that obtain j where j: "j < i" "sortedTaskKeys g ! j = d" by auto
    then have "j < length (sortedTaskKeys g)" using i(1) by simp
    then have "d \<in> set (sortedTaskKeys g)" using j(2) nth_mem by blast
    then show ?thesis using dm by simp
  qed
  show ?thesis using d dm before resolves by blast
qed

lemma exBuildGraph_built: "TaskGraph 3 exHost exConfig [exRequest ''build''] = Inr exBuildGraph"
proof -
  have "\<not> isl (TaskGraph 3 exHost exConfig [exRequest ''build''])" by code_simp
  then show ?thesis unfolding exBuildGraph_def by (cases "TaskGraph 3 exHost exConfig [exRequest ''build'']") auto
qed

lemma exBuildGraph_sorted: "sortedTaskKeys exBuildGraph = [''build::/r/c'', ''build::/r/a'', ''build::/r/b'']"
  unfolding exBuildGraph_def by code_simp

lemma exBuildGraph_deps:
  "map (depsOf exBuildGraph) [''build::/r/c'', ''build::/r/a'', ''build::/r/b''] = [[], [''build::/r/c''], []]"
  unfolding exBuildGraph_def by code_simp

lemma exBuildGraph_nodes:
  "map (\<lambda>k. allTasks exBuildGraph k \<noteq> None) [''build::/r/c'', ''build::/r/a'', ''build::/r/b''] = [True, True, True]"
  unfolding exBuildGraph_def by code_simp

theorem TaskGraph_topological_order_witness:
  "TaskGraph 3 exHost exConfig [exRequest ''build''] = Inr exBuildGraph \<and>
   sortedTaskKeys exBuildGraph = [''build::/r/c'', ''build::/r/a'', ''build::/r/b''] \<and>
   depsOf exBuildGraph ''build::/r/a'' = [''build::/r/c''] \<and>
   distinct (sortedTaskKeys exBuildGraph) \<and>
   dom (allTasks exBuildGraph) = set (sortedTaskKeys exBuildGraph) \<and>
   ''build::/r/c'' \<in> dom (allTasks exBuildGraph) \<and>
   (\<exists>j<1. sortedTaskKeys exBuildGraph ! j = ''build::/r/c'')"
proof -
  note main = TaskGraph_topological_order[OF exBuildGraph_built]
  obtain t where t: "allTasks exBuildGraph ''build::/r/a'' = Some t"
    using exBuildGraph_nodes by auto
  have deps: "depsOf exBuildGraph ''build::/r/a'' = [''build::/r/c'']"
    using exBuildGraph_deps by simp
  then have d: "''build::/r/c'' \<in> set (t_dependencies t)" using t by (simp add: depsOf_def)
  have "''build::/r/c'' \<in> dom (allTasks exBuildGraph)" using main t d by blast
  moreover have "\<exists>j<1. sortedTaskKeys exBuildGraph ! j = ''build::/r/c''"
  proof -
    have "1 < length (sortedTaskKeys exBuildGraph) \<and>
          allTasks exBuildGraph (sortedTaskKeys exBuildGraph ! 1) = Some t \<and>
          ''build::/r/c'' \<in> set (t_dependencies t)"
      using t d by (simp add: exBuildGraph_sorted)
    then show ?thesis using main by blast
  qed
  ultimately show ?thesis using main exBuildGraph_built exBuildGraph_sorted deps by blast
qed

section \<open>Every node of a constructed graph is pending\<close>

lemma allPending_pushDependency: "allPending g \<Longrightarrow> allPending (pushDependency owner k g)"
  by (auto simp: allPending_def pushDependency_def split: option.splits if_splits)

lemma allPending_newTask:
  "allPending g \<Longrightarrow> allPending (g\<lparr>allTasks := (allTasks g)(k \<mapsto> newTask k tc rt w)\<rparr>)"
  by (auto simp: allPending_def newTask_def)

lemma keepsPending_push:
  assumes "keepsPending v" and "allPending g"
    and "v path rt w (pushDependency owner k g) = Inr g'"
  shows "allPending g'"
proof -
  have "allPending (pushDependency owner k g)" using assms(2) by (rule allPending_pushDependency)
  then show ?thesis using assms(1,3) unfolding keepsPending_def by blast
qed

lemma enqueueTask_keepsPending:
  assumes v: "keepsPending v" and p: "allPending g"
    and run: "enqueueTask v h c path rt owner g = Inr g'"
  shows "allPending g'"
proof (cases "c_isTopLevelScript c (rt_scriptName rt)")
  case True
  with run show ?thesis
    using keepsPending_push[OF v p] by (simp add: enqueueTask_def Let_def)
next
  case False
  with run have loop: "for_each (\<lambda>d g'.
            (case getWorkspaceByDir (c_project c) d of
               None \<Rightarrow> Inl (WorkspaceNotFound d)
             | Some w \<Rightarrow>
                 if hasScript w (rt_scriptName rt) then
                   (let k = c_getTaskKey c d (rt_scriptName rt)
                    in v path rt w (pushDependency owner k g'))
                 else Inr g'))
      (filterPackageDirs h (ws_dir (p_root (c_project c))) (c_project c) (rt_filterPaths rt)) g = Inr g'"
    by (simp add: enqueueTask_def)
  show ?thesis
  proof (rule for_each_inv[OF loop, where P = allPending])
    show "allPending g" by (rule p)
  next
    fix d t t'
    assume "allPending t" and
      "(case getWorkspaceByDir (c_project c) d of
               None \<Rightarrow> Inl (WorkspaceNotFound d)
             | Some w \<Rightarrow>
                 if hasScript w (rt_scriptName rt) then
                   (let k = c_getTaskKey c d (rt_scriptName rt)
                    in v path rt w (pushDependency owner k t))
                 else Inr t) = Inr t'"
    then show "allPending t'"
      using keepsPending_push[OF v] unfolding Let_def
      by (auto split: option.splits if_splits)
  qed
qed

lemma visitNew_keepsPending:
  assumes v: "keepsPending v" and p: "allPending g"
    and run: "visitNew v h c path rt w g = Inr g'"
  shows "allPending g'"
proof -
  define k where "k = c_getTaskKey c (ws_dir w) (rt_scriptName rt)"
  define tc where "tc = c_getTaskConfig c w (rt_scriptName rt)"
  define g1 where "g1 = g\<lparr>allTasks := (allTasks g)(k \<mapsto> newTask k tc rt w)\<rparr>"
  from run obtain g2 g3 where
    loop1: "for_each (runsAfterStep v h c (path @ [k]) rt w k) (tc_runsAfterEntries tc) g1 = Inr g2"
    and loop2: "(if tc_execution tc = Dependent then
                   for_each (dependentStep v c (path @ [k]) rt k)
                     (ws_localDependencyWorkspaceNames w) g2
                 else Inr g2) = Inr g3"
    and res: "g' = g3\<lparr>sortedTaskKeys := sortedTaskKeys g3 @ [k]\<rparr>"
    unfolding visitNew_def Let_def k_def tc_def g1_def
    by (auto split: sum.splits)
  have p1: "allPending g1" unfolding g1_def using p by (rule allPending_newTask)
  have p2: "allPending g2"
  proof (rule for_each_inv[OF loop1, where P = allPending])
    show "allPending g1" by (rule p1)
  next
    fix x t t'
    assume "allPending t" "runsAfterStep v h c (path @ [k]) rt w k x t = Inr t'"
    then show "allPending t'"
      using enqueueTask_keepsPending[OF v]
      by (auto simp: runsAfterStep_def split: prod.splits sum.splits)
  qed
  have p3: "allPending g3"
  proof (cases "tc_execution tc = Dependent")
    case True
    with loop2 have l: "for_each (dependentStep v c (path @ [k]) rt k)
                       (ws_localDependencyWorkspaceNames w) g2 = Inr g3" by simp
    show ?thesis
    proof (rule for_each_inv[OF l, where P = allPending])
      show "allPending g2" by (rule p2)
    next
      fix x t t'
      assume "allPending t" "dependentStep v c (path @ [k]) rt k x t = Inr t'"
      then show "allPending t'"
        using keepsPending_push[OF v] unfolding dependentStep_def Let_def
        by (auto split: option.splits if_splits)
    qed
  next
    case False
    with loop2 p2 show ?thesis by simp
  qed
  show ?thesis using p3 by (simp add: res allPending_def)
qed

lemma visit_keepsPending: "keepsPending (visit n h c)"
proof (induction n)
  case 0
  show ?case
    by (auto simp: keepsPending_def Let_def alreadyScheduled_def logger_fail_def split: if_splits)
next
  case (Suc n)
  show ?case
    unfolding keepsPending_def
  proof (intro allI impI)
    fix path rt w g g'
    assume p: "allPending g" and run: "visit (Suc n) h c path rt w g = Inr g'"
    show "allPending g'"
    proof (cases "allTasks g (c_getTaskKey c (ws_dir w) (rt_scriptName rt)) = None")
      case True
      with run have "visitNew (visit n h c) h c path rt w g = Inr g'" by (simp add: Let_def)
      with Suc p show ?thesis by (rule visitNew_keepsPending)
    next
      case False
      with run p show ?thesis by (auto simp: Let_def alreadyScheduled_def logger_fail_def split: if_splits)
    qed
  qed
qed

lemma TaskGraph_allPending:
  assumes "TaskGraph fuel h c requestedTasks = Inr g"
  shows "allPending g"
proof -
  have loop: "for_each (\<lambda>requestedTask g. enqueueTask (visit fuel h c) h c [] requestedTask None g)
                requestedTasks emptyGraph = Inr g"
    using assms by (simp add: TaskGraph_def)
  show ?thesis
  proof (rule for_each_inv[OF loop, where P = allPending])
    show "allPending emptyGraph" by (simp add: allPending_def emptyGraph_def)
  next
    fix x t t'
    assume "allPending t" "enqueueTask (visit fuel h c) h c [] x None t = Inr t'"
    then show "allPending t'" using enqueueTask_keepsPending[OF visit_keepsPending] by blast
  qed
qed

section \<open>More fuel does not change a result\<close>

text \<open>
  The depth bound is harmless: a result other than running out of fuel is also the result
  for every larger bound.
\<close>

lemma for_each_agree:
  assumes "\<And>x s. f x s \<noteq> Inl OutOfFuel \<Longrightarrow> f' x s = f x s"
    and "for_each f xs s \<noteq> Inl OutOfFuel"
  shows "for_each f' xs s = for_each f xs s"
  using assms(2)
proof (induction xs arbitrary: s)
  case Nil
  then show ?case by simp
next
  case (Cons x xs)
  have fx: "f x s \<noteq> Inl OutOfFuel" using Cons.prems by (auto split: sum.splits)
  then have eq: "f' x s = f x s" by (rule assms(1))
  show ?case
  proof (cases "f x s")
    case (Inl e)
    with eq show ?thesis by simp
  next
    case (Inr s')
    with Cons.prems have "for_each f xs s' \<noteq> Inl OutOfFuel" by simp
    then have "for_each f' xs s' = for_each f xs s'" by (rule Cons.IH)
    with eq Inr show ?thesis by simp
  qed
qed

lemma enqueueTask_agree:
  assumes v: "agreesUpTo v v'" and run: "enqueueTask v h c path rt owner g \<noteq> Inl OutOfFuel"
  shows "enqueueTask v' h c path rt owner g = enqueueTask v h c path rt owner g"
proof (cases "c_isTopLevelScript c (rt_scriptName rt)")
  case True
  with run v show ?thesis by (simp add: enqueueTask_def agreesUpTo_def Let_def)
next
  case False
  have step: "\<And>d s. (case getWorkspaceByDir (c_project c) d of
               None \<Rightarrow> Inl (WorkspaceNotFound d)
             | Some w \<Rightarrow>
                 if hasScript w (rt_scriptName rt) then
                   (let k = c_getTaskKey c d (rt_scriptName rt)
                    in v path rt w (pushDependency owner k s))
                 else Inr s) \<noteq> Inl OutOfFuel \<Longrightarrow>
        (case getWorkspaceByDir (c_project c) d of
               None \<Rightarrow> Inl (WorkspaceNotFound d)
             | Some w \<Rightarrow>
                 if hasScript w (rt_scriptName rt) then
                   (let k = c_getTaskKey c d (rt_scriptName rt)
                    in v' path rt w (pushDependency owner k s))
                 else Inr s) =
        (case getWorkspaceByDir (c_project c) d of
               None \<Rightarrow> Inl (WorkspaceNotFound d)
             | Some w \<Rightarrow>
                 if hasScript w (rt_scriptName rt) then
                   (let k = c_getTaskKey c d (rt_scriptName rt)
                    in v path rt w (pushDependency owner k s))
                 else Inr s)"
    using v by (auto simp: agreesUpTo_def Let_def split: option.splits)
  from False run show ?thesis
    unfolding enqueueTask_def by (simp add: for_each_agree[OF step])
qed

lemma runsAfterStep_agree:
  assumes "agreesUpTo v v'" and "runsAfterStep v h c path rt w k entry g \<noteq> Inl OutOfFuel"
  shows "runsAfterStep v' h c path rt w k entry g = runsAfterStep v h c path rt w k entry g"
  using assms
  by (auto simp: runsAfterStep_def enqueueTask_agree split: prod.splits sum.splits)

lemma dependentStep_agree:
  assumes "agreesUpTo v v'" and "dependentStep v c path rt k workspaceName g \<noteq> Inl OutOfFuel"
  shows "dependentStep v' c path rt k workspaceName g = dependentStep v c path rt k workspaceName g"
  using assms
  by (auto simp: dependentStep_def agreesUpTo_def Let_def split: option.splits)

lemma visitNew_agree:
  assumes v: "agreesUpTo v v'" and run: "visitNew v h c path rt w g \<noteq> Inl OutOfFuel"
  shows "visitNew v' h c path rt w g = visitNew v h c path rt w g"
proof -
  define k where "k = c_getTaskKey c (ws_dir w) (rt_scriptName rt)"
  define tc where "tc = c_getTaskConfig c w (rt_scriptName rt)"
  define g1 where "g1 = g\<lparr>allTasks := (allTasks g)(k \<mapsto> newTask k tc rt w)\<rparr>"
  let ?l1 = "\<lambda>u. for_each (runsAfterStep u h c (path @ [k]) rt w k) (tc_runsAfterEntries tc) g1"
  let ?l2 = "\<lambda>u g2. for_each (dependentStep u c (path @ [k]) rt k)
                        (ws_localDependencyWorkspaceNames w) g2"
  have unf: "visitNew u h c path rt w g =
      (case ?l1 u of Inl e \<Rightarrow> Inl e
       | Inr g2 \<Rightarrow> (case (if tc_execution tc = Dependent then ?l2 u g2 else Inr g2) of
                      Inl e \<Rightarrow> Inl e
                    | Inr g3 \<Rightarrow> Inr (g3\<lparr>sortedTaskKeys := sortedTaskKeys g3 @ [k]\<rparr>)))" for u
    unfolding visitNew_def Let_def k_def tc_def g1_def by (rule refl)
  have n1: "?l1 v \<noteq> Inl OutOfFuel" using run unfolding unf by (auto split: sum.splits)
  have e1: "?l1 v' = ?l1 v"
    using runsAfterStep_agree[OF v] n1 by (intro for_each_agree) auto
  show ?thesis
  proof (cases "?l1 v")
    case (Inl e)
    with e1 show ?thesis unfolding unf by simp
  next
    case (Inr g2)
    show ?thesis
    proof (cases "tc_execution tc = Dependent")
      case True
      with run Inr have n2: "?l2 v g2 \<noteq> Inl OutOfFuel" unfolding unf by (auto split: sum.splits)
      have "?l2 v' g2 = ?l2 v g2"
        using dependentStep_agree[OF v] n2 by (intro for_each_agree) auto
      with e1 Inr True show ?thesis unfolding unf by simp
    next
      case False
      with e1 Inr show ?thesis unfolding unf by simp
    qed
  qed
qed

lemma visit_Suc_agree: "agreesUpTo (visit n h c) (visit (Suc n) h c)"
proof (induction n)
  case 0
  show ?case by (auto simp: agreesUpTo_def Let_def)
next
  case (Suc n)
  show ?case
    unfolding agreesUpTo_def
  proof (intro allI impI)
    fix path rt w g
    assume run: "visit (Suc n) h c path rt w g \<noteq> Inl OutOfFuel"
    show "visit (Suc (Suc n)) h c path rt w g = visit (Suc n) h c path rt w g"
    proof (cases "allTasks g (c_getTaskKey c (ws_dir w) (rt_scriptName rt)) = None")
      case True
      with run have "visitNew (visit n h c) h c path rt w g \<noteq> Inl OutOfFuel"
        by (simp add: Let_def)
      with Suc have "visitNew (visit (Suc n) h c) h c path rt w g = visitNew (visit n h c) h c path rt w g"
        by (rule visitNew_agree)
      with True show ?thesis by (simp add: Let_def)
    next
      case False
      then show ?thesis by (simp add: Let_def)
    qed
  qed
qed

lemma agreesUpTo_trans: "agreesUpTo u v \<Longrightarrow> agreesUpTo v w \<Longrightarrow> agreesUpTo u w"
  by (auto simp: agreesUpTo_def)

lemma visit_more_fuel: "agreesUpTo (visit n h c) (visit (n + m) h c)"
proof (induction m)
  case 0
  show ?case by (simp add: agreesUpTo_def)
next
  case (Suc m)
  have "agreesUpTo (visit (n + m) h c) (visit (Suc (n + m)) h c)" by (rule visit_Suc_agree)
  with Suc show ?case using agreesUpTo_trans by fastforce
qed

lemma TaskGraph_more_fuel:
  assumes "TaskGraph fuel h c requestedTasks \<noteq> Inl OutOfFuel"
  shows "TaskGraph (fuel + extra) h c requestedTasks = TaskGraph fuel h c requestedTasks"
proof -
  have "\<And>x s. enqueueTask (visit fuel h c) h c [] x None s \<noteq> Inl OutOfFuel \<Longrightarrow>
          enqueueTask (visit (fuel + extra) h c) h c [] x None s
            = enqueueTask (visit fuel h c) h c [] x None s"
    using enqueueTask_agree[OF visit_more_fuel] by blast
  then show ?thesis using assms unfolding TaskGraph_def by (intro for_each_agree) auto
qed

section \<open>Reaching a key that is already scheduled\<close>

text \<open>
  Claim C6. When \<open>visit\<close> reaches a key that is already in the node map, then, whatever
  the remaining depth bound: if the key is on the current path the result is the
  circular-dependency error carrying the path and the key; otherwise the result is the
  graph it was given, unchanged, and no error.
\<close>

theorem visit_existing_key:
  assumes "allTasks g (c_getTaskKey c (ws_dir w) (rt_scriptName rt)) \<noteq> None"
  shows "visit n h c path rt w g =
           (if c_getTaskKey c (ws_dir w) (rt_scriptName rt) \<in> set path
            then Inl (CircularDependency path (c_getTaskKey c (ws_dir w) (rt_scriptName rt)))
            else Inr g)"
  using assms by (cases n) (simp_all add: Let_def alreadyScheduled_def logger_fail_def)

lemma exKey_c:
  "c_getTaskKey exConfig (ws_dir (exWorkspace ''c'' [])) (rt_scriptName (exRequest ''build'')) = ''build::/r/c''"
  by (simp add: exConfig_def exWorkspace_def exRequest_def)

theorem visit_existing_key_witness:
  "allTasks exBuildGraph ''build::/r/c'' \<noteq> None \<and>
   visit 0 exHost exConfig [''test::/r/c''] (exRequest ''build'') (exWorkspace ''c'' []) exBuildGraph
     = Inr exBuildGraph \<and>
   visit 0 exHost exConfig [''build::/r/c'', ''build::/r/a''] (exRequest ''build'') (exWorkspace ''c'' [])
       exBuildGraph
     = Inl (CircularDependency [''build::/r/c'', ''build::/r/a''] ''build::/r/c'') \<and>
   TaskGraph 4 exHost exCyclicConfig [exRequest ''test'']
     = Inl (CircularDependency [''test::/r/a'', ''build::/r/a''] ''test::/r/a'')"
proof -
  have known: "allTasks exBuildGraph ''build::/r/c'' \<noteq> None"
    using exBuildGraph_nodes by simp
  then have known': "allTasks exBuildGraph
      (c_getTaskKey exConfig (ws_dir (exWorkspace ''c'' [])) (rt_scriptName (exRequest ''build''))) \<noteq> None"
    by (simp add: exKey_c)
  have cyc: "TaskGraph 4 exHost exCyclicConfig [exRequest ''test'']
     = Inl (CircularDependency [''test::/r/a'', ''build::/r/a''] ''test::/r/a'')"
  proof -
    have "map_sum id sortedTaskKeys (TaskGraph 4 exHost exCyclicConfig [exRequest ''test''])
            = Inl (CircularDependency [''test::/r/a'', ''build::/r/a''] ''test::/r/a'')"
      by code_simp
    then show ?thesis
      by (cases "TaskGraph 4 exHost exCyclicConfig [exRequest ''test'']") auto
  qed
  show ?thesis
    using known cyc
      visit_existing_key[OF known', of 0 exHost "[''test::/r/c'']"]
      visit_existing_key[OF known', of 0 exHost "[''build::/r/c'', ''build::/r/a'']"]
    by (simp add: exKey_c)
qed

section \<open>The workspaces a requested task is run in\<close>

lemma set_uniq [simp]: "set (uniq xs) = set xs"
  by (simp add: uniq_def)

lemma distinct_uniq [simp]: "distinct (uniq xs)"
  by (simp add: uniq_def)

lemma set_filterPackageDirs:
  "set (filterPackageDirs h (ws_dir (p_root (c_project c))) (c_project c) fps) = candidateDirs h c fps"
  by (auto simp: filterPackageDirs_def candidateDirs_def micromatch_match_def)

lemma filterPackageDirs_known:
  "d \<in> set (filterPackageDirs h r p fps) \<Longrightarrow> getWorkspaceByDir p d \<noteq> None"
  by (auto simp: filterPackageDirs_def micromatch_match_def allWorkspaceDirs_def
      getWorkspaceByDir_def find_None_iff split: if_splits)

lemma distinct_filterPackageDirs: "distinct (filterPackageDirs h r p fps)"
  by (simp add: filterPackageDirs_def allWorkspaceDirs_def)

lemma for_each_targets:
  assumes "\<forall>d\<in>set ds. getWorkspaceByDir p d \<noteq> None"
  shows "for_each (\<lambda>d g'.
            (case getWorkspaceByDir p d of
               None \<Rightarrow> Inl (WorkspaceNotFound d)
             | Some w \<Rightarrow>
                 if hasScript w s then
                   (let k = key d s in v path rt w (pushDependency owner k g'))
                 else Inr g')) ds g
         = for_each (\<lambda>w g'. v path rt w (pushDependency owner (key (ws_dir w) s) g'))
             (concat (map (\<lambda>d. case getWorkspaceByDir p d of
                               None \<Rightarrow> []
                             | Some w \<Rightarrow> if hasScript w s then [w] else []) ds)) g"
  using assms
proof (induction ds arbitrary: g)
  case Nil
  then show ?case by simp
next
  case (Cons d ds)
  then obtain w where w: "getWorkspaceByDir p d = Some w" by auto
  then have "ws_dir w = d" by (rule getWorkspaceByDir_dir)
  with w Cons show ?case by (simp add: Let_def split: sum.splits)
qed

lemma targets_dir_mem:
  "w \<in> set (concat (map (\<lambda>d. case getWorkspaceByDir p d of
                               None \<Rightarrow> []
                             | Some w \<Rightarrow> if hasScript w s then [w] else []) ds))
   \<Longrightarrow> ws_dir w \<in> set ds"
  by (auto split: option.splits if_splits dest: getWorkspaceByDir_dir[OF sym])

lemma distinct_targets:
  assumes "distinct ds"
  shows "distinct (concat (map (\<lambda>d. case getWorkspaceByDir p d of
                               None \<Rightarrow> []
                             | Some w \<Rightarrow> if hasScript w s then [w] else []) ds))"
  using assms
proof (induction ds)
  case Nil
  then show ?case by simp
next
  case (Cons d ds)
  show ?case
  proof (cases "getWorkspaceByDir p d")
    case None
    with Cons show ?thesis by simp
  next
    case (Some w)
    then have "ws_dir w = d" by (rule getWorkspaceByDir_dir)
    then have "w \<notin> set (concat (map (\<lambda>d. case getWorkspaceByDir p d of
                               None \<Rightarrow> []
                             | Some w \<Rightarrow> if hasScript w s then [w] else []) ds))"
      using Cons.prems targets_dir_mem by fastforce
    with Cons Some show ?thesis by auto
  qed
qed

text \<open>
  What \<open>enqueueTask\<close> does: it pushes the key of, and visits, exactly the workspaces of
  \<open>enqueueTargets\<close>, each once and in that order. These are the root workspace alone
  for a top-level script, and otherwise the workspaces found for the candidate
  directories for which \<^verbatim>\<open>workspace.scripts[name]\<close> holds as a condition.
\<close>

lemma enqueueTask_visits_targets:
  "enqueueTask v h c path rt owner g =
     for_each (\<lambda>w g'. v path rt w
                 (pushDependency owner (c_getTaskKey c (ws_dir w) (rt_scriptName rt)) g'))
       (enqueueTargets h c rt) g \<and>
   distinct (enqueueTargets h c rt) \<and>
   set (enqueueTargets h c rt) =
     (if c_isTopLevelScript c (rt_scriptName rt) then {p_root (c_project c)}
      else {w. \<exists>d\<in>candidateDirs h c (rt_filterPaths rt).
                 getWorkspaceByDir (c_project c) d = Some w \<and> hasScript w (rt_scriptName rt)})"
proof (cases "c_isTopLevelScript c (rt_scriptName rt)")
  case True
  then show ?thesis
    by (simp add: enqueueTask_def enqueueTargets_def Let_def split: sum.splits)
next
  case False
  let ?ds = "filterPackageDirs h (ws_dir (p_root (c_project c))) (c_project c) (rt_filterPaths rt)"
  have known: "\<forall>d\<in>set ?ds. getWorkspaceByDir (c_project c) d \<noteq> None"
    using filterPackageDirs_known by blast
  have "enqueueTask v h c path rt owner g =
     for_each (\<lambda>w g'. v path rt w
                 (pushDependency owner (c_getTaskKey c (ws_dir w) (rt_scriptName rt)) g'))
       (enqueueTargets h c rt) g"
    using False for_each_targets[OF known, of "rt_scriptName rt" "c_getTaskKey c" v path rt owner g]
    by (simp add: enqueueTask_def enqueueTargets_def)
  moreover have "distinct (enqueueTargets h c rt)"
    using False by (simp add: enqueueTargets_def distinct_targets distinct_filterPackageDirs)
  moreover have "set (enqueueTargets h c rt) =
      {w. \<exists>d\<in>candidateDirs h c (rt_filterPaths rt).
             getWorkspaceByDir (c_project c) d = Some w \<and> hasScript w (rt_scriptName rt)}"
    using False
    by (auto simp: enqueueTargets_def set_filterPackageDirs split: option.splits if_splits)
  ultimately show ?thesis using False by simp
qed

text \<open>
  Where the condition of the code and the declaration of a script agree on every workspace
  of the project, the workspaces visited are the targets of the specification.
\<close>

lemma getWorkspaceByDir_mem: "getWorkspaceByDir p d = Some w \<Longrightarrow> w \<in> set (p_workspaces p)"
  by (auto simp: getWorkspaceByDir_def find_Some_iff)

lemma enqueueTargets_spec:
  assumes "\<forall>w\<in>set (p_workspaces (c_project c)).
             hasScript w (rt_scriptName rt) = declaresScript w (rt_scriptName rt)"
  shows "set (enqueueTargets h c rt) = specTargets h c rt"
proof -
  have "set (enqueueTargets h c rt) =
     (if c_isTopLevelScript c (rt_scriptName rt) then {p_root (c_project c)}
      else {w. \<exists>d\<in>candidateDirs h c (rt_filterPaths rt).
                 getWorkspaceByDir (c_project c) d = Some w \<and> hasScript w (rt_scriptName rt)})"
    using enqueueTask_visits_targets[where h = h and c = c and rt = rt] by blast
  then show ?thesis
    using assms getWorkspaceByDir_mem unfolding specTargets_def by (auto split: if_splits)
qed

text \<open>
  Claim C7 fails on the code for a script name that every JavaScript object inherits. No
  workspace of the sample project declares a script \<open>constructor\<close>, so the specification
  gives no target for a request of it; \<open>enqueueTask\<close> visits every workspace, and the
  constructed graph has a task in each.
\<close>

theorem enqueueTask_inherited_script_name:
  "map (\<lambda>w. ws_scripts w ''constructor'') (p_workspaces exProject) = [None, None, None] \<and>
   specTargets exHost exConfig (exRequest ''constructor'') = {} \<and>
   enqueueTargets exHost exConfig (exRequest ''constructor'') = p_workspaces exProject \<and>
   map_sum id sortedTaskKeys (TaskGraph 3 exHost exConfig [exRequest ''constructor''])
     = Inr [''constructor::/r/c'', ''constructor::/r/a'', ''constructor::/r/b'']"
proof -
  have none: "map (\<lambda>w. ws_scripts w ''constructor'') (p_workspaces exProject) = [None, None, None]"
    by (simp add: exProject_def exWorkspace_def)
  have undeclared: "\<forall>w\<in>set (p_workspaces exProject). \<not> declaresScript w ''constructor''"
    by (simp add: exProject_def exWorkspace_def declaresScript_def)
  have spec: "specTargets exHost exConfig (exRequest ''constructor'') = {}"
  proof -
    have "\<not> declaresScript w ''constructor''" if "getWorkspaceByDir exProject d = Some w" for d w
      using undeclared getWorkspaceByDir_mem[OF that] by blast
    then show ?thesis
      by (auto simp: specTargets_def exConfig_def exRequest_def)
  qed
  have code: "enqueueTargets exHost exConfig (exRequest ''constructor'') = p_workspaces exProject"
    by (simp add: enqueueTargets_def exHost_def exConfig_def exRequest_def exProject_def
        filterPackageDirs_def allWorkspaceDirs_def uniq_def exWorkspace_def
        getWorkspaceByDir_def hasScript_def objectPrototypeNames_def)
  have graph: "map_sum id sortedTaskKeys (TaskGraph 3 exHost exConfig [exRequest ''constructor''])
     = Inr [''constructor::/r/c'', ''constructor::/r/a'', ''constructor::/r/b'']"
    by code_simp
  show ?thesis using none spec code graph by simp
qed

section \<open>The bound on concurrency\<close>

text \<open>
  Claim C10. The test of the force-parallel variable comes first: when it is set the
  bound is 2 whether or not test mode is on, and in test mode the bound is 1 exactly
  when the variable is not set (absent or empty).
\<close>

theorem maxConcurrentTasks_precedence:
  "(envIsSet forceParallel \<longrightarrow> maxConcurrentTasks forceParallel isTest numCpus = 2) \<and>
   (maxConcurrentTasks forceParallel True numCpus = 1 \<longleftrightarrow> \<not> envIsSet forceParallel)"
  by (simp add: maxConcurrentTasks_def)

theorem maxConcurrentTasks_precedence_witness:
  "envIsSet (Some ''true'') \<and> maxConcurrentTasks (Some ''true'') True 8 = 2 \<and>
   maxConcurrentTasks None True 8 = 1 \<and> maxConcurrentTasks (Some '''') True 8 = 1"
  using maxConcurrentTasks_precedence[of "Some ''true''" True 8]
    maxConcurrentTasks_precedence[of None True 8]
    maxConcurrentTasks_precedence[of "Some ''''" True 8]
  by (simp add: envIsSet_def)

section \<open>The scheduler: filters and ticks\<close>

lemma filterKeys_Inr:
  "filterKeys p ks = Inr r \<Longrightarrow> r = filter (\<lambda>k. p k = Inr True) ks"
proof (induction ks arbitrary: r)
  case Nil
  then show ?case by simp
next
  case (Cons k ks)
  then show ?case by (auto split: sum.splits if_splits)
qed

lemma filterKeys_defined:
  "filterKeys p ks = Inr r \<Longrightarrow> k \<in> set ks \<Longrightarrow> \<exists>b. p k = Inr b"
proof (induction ks arbitrary: r)
  case Nil
  then show ?case by simp
next
  case (Cons a ks)
  then show ?case by (auto split: sum.splits)
qed

lemma everySuccess_True:
  "everySuccess m ds = Inr True \<longleftrightarrow> (\<forall>d\<in>set ds. \<exists>t. m d = Some t \<and> isSuccess (t_status t))"
  by (induction ds) (auto split: option.splits)

lemma isTaskReady_True:
  "isTaskReady g k = Inr True \<longleftrightarrow>
     (\<exists>t. allTasks g k = Some t \<and> t_status t = Pending \<and>
          (\<forall>d\<in>set (t_dependencies t). \<exists>td. allTasks g d = Some td \<and> isSuccess (t_status td)))"
  by (auto simp: isTaskReady_def everySuccess_True split: option.splits)

lemma filterUnparallelizable_subset:
  "filterUnparallelizable m seen ks = Inr r \<Longrightarrow> set r \<subseteq> set ks"
proof (induction ks arbitrary: seen r)
  case Nil
  then show ?case by simp
next
  case (Cons k ks)
  then show ?case by (fastforce split: option.splits if_splits sum.splits)
qed

lemma filterUnparallelizable_length:
  "filterUnparallelizable m seen ks = Inr r \<Longrightarrow> length r \<le> length ks"
proof (induction ks arbitrary: seen r)
  case Nil
  then show ?case by simp
next
  case (Cons k ks)
  then show ?case by (fastforce split: option.splits if_splits sum.splits)
qed

lemma filterUnparallelizable_nonempty:
  "filterUnparallelizable m seen ks = Inr r \<Longrightarrow> r = [] \<Longrightarrow> seen = {} \<Longrightarrow> ks = []"
  by (cases ks) (auto split: option.splits if_splits sum.splits)

lemma filterUnparallelizable_once:
  "filterUnparallelizable (allTasks g) seen ks = Inr r \<Longrightarrow>
     length (filter (unparallelizable g s) r) \<le> 1 \<and>
     (s \<in> seen \<longrightarrow> filter (unparallelizable g s) r = [])"
proof (induction ks arbitrary: seen r)
  case Nil
  then show ?case by simp
next
  case (Cons k ks)
  from Cons.prems obtain t where t: "allTasks g k = Some t" by (auto split: option.splits)
  show ?case
  proof (cases "tc_parallel (t_taskConfig t)")
    case True
    with Cons.prems t obtain r' where
      r': "filterUnparallelizable (allTasks g) seen ks = Inr r'" "r = k # r'"
      by (auto split: sum.splits)
    have "\<not> unparallelizable g s k" using t True by (simp add: unparallelizable_def)
    then show ?thesis using Cons.IH[OF r'(1)] r'(2) by simp
  next
    case False
    show ?thesis
    proof (cases "t_scriptName t \<in> seen")
      case True
      with Cons.prems t False have "filterUnparallelizable (allTasks g) seen ks = Inr r" by simp
      then show ?thesis by (rule Cons.IH)
    next
      case notseen: False
      with Cons.prems t False obtain r' where
        r': "filterUnparallelizable (allTasks g) (insert (t_scriptName t) seen) ks = Inr r'"
          "r = k # r'"
        by (auto split: sum.splits)
      note IH = Cons.IH[OF r'(1)]
      show ?thesis
      proof (cases "t_scriptName t = s")
        case True
        then have "filter (unparallelizable g s) r' = []" using IH by simp
        then show ?thesis using r'(2) notseen True by auto
      next
        case False
        then have "\<not> unparallelizable g s k" using t by (simp add: unparallelizable_def)
        then show ?thesis using IH r'(2) by auto
      qed
    qed
  qed
qed

lemma length_filter_sort: "length (filter P (sort xs)) = length (filter P xs)"
proof -
  have "mset (filter P (sort xs)) = mset (filter P xs)" by simp
  then show ?thesis by (metis size_mset)
qed

lemma length_filter_take: "length (filter P (take n xs)) \<le> length (filter P xs)"
proof -
  have "length (filter P xs) = length (filter P (take n xs)) + length (filter P (drop n xs))"
    by (metis append_take_drop_id filter_append length_append)
  then show ?thesis by simp
qed



lemma sortedTaskKeys_setStatus [simp]: "sortedTaskKeys (setStatus k st g) = sortedTaskKeys g"
  by (simp add: setStatus_def split: option.splits)

lemma allTasks_setStatus:
  "allTasks (setStatus k st g) q =
     (if q = k then map_option (\<lambda>t. t\<lparr>t_status := st\<rparr>) (allTasks g k) else allTasks g q)"
  by (auto simp: setStatus_def split: option.splits)

lemma sortedTaskKeys_startTasks [simp]: "sortedTaskKeys (startTasks ks g) = sortedTaskKeys g"
  by (induction ks arbitrary: g) simp_all

lemma allTasks_startTasks:
  "allTasks (startTasks ks g) q =
     (if q \<in> set ks then map_option (\<lambda>t. t\<lparr>t_status := Running\<rparr>) (allTasks g q) else allTasks g q)"
proof (induction ks arbitrary: g)
  case Nil
  then show ?case by simp
next
  case (Cons k ks)
  show ?case
    by (cases "allTasks g q") (auto simp: Cons allTasks_setStatus option.map_comp comp_def)
qed

lemma sort_Nil_iff: "sort xs = [] \<longleftrightarrow> xs = []"
  by (metis length_0_conv length_sort)

lemma tick_cases:
  assumes "tick maxC g = Inr (r, g')"
  obtains (same) "g' = g" "r = Resolved \<or> r = Waiting"
  | (started) runningTasks ready where
      "allRunningTaskKeys g = Inr runningTasks"
      "readyInConstructionOrder g = Inr ready"
      "int (length runningTasks) < maxC" "ready \<noteq> []"
      "r = Started (take (nat (min (maxC - int (length runningTasks)) (int (length ready)))) (sort ready))"
      "g' = startTasks (take (nat (min (maxC - int (length runningTasks)) (int (length ready)))) (sort ready)) g"
  using assms
  by (auto simp: tick_def allReadyTaskKeys_def Let_def sort_Nil_iff split: sum.splits if_splits)

lemma ready_keys:
  assumes "readyInConstructionOrder g = Inr ready" and "k \<in> set ready"
  shows "isTaskReady g k = Inr True"
proof -
  from assms(1) obtain r0 where r0: "filterKeys (isTaskReady g) (sortedTaskKeys g) = Inr r0"
    and f: "filterUnparallelizable (allTasks g) {} r0 = Inr ready"
    by (auto simp: readyInConstructionOrder_def split: sum.splits)
  have "k \<in> set r0" using filterUnparallelizable_subset[OF f] assms(2) by auto
  then show ?thesis using filterKeys_Inr[OF r0] by simp
qed

lemma ready_in_sorted:
  assumes "readyInConstructionOrder g = Inr ready" and "k \<in> set ready"
  shows "k \<in> set (sortedTaskKeys g)"
proof -
  from assms(1) obtain r0 where r0: "filterKeys (isTaskReady g) (sortedTaskKeys g) = Inr r0"
    and f: "filterUnparallelizable (allTasks g) {} r0 = Inr ready"
    by (auto simp: readyInConstructionOrder_def split: sum.splits)
  have "k \<in> set r0" using filterUnparallelizable_subset[OF f] assms(2) by auto
  then show ?thesis using filterKeys_Inr[OF r0] by simp
qed

lemma ready_once:
  assumes "readyInConstructionOrder g = Inr ready"
  shows "length (filter (unparallelizable g s) ready) \<le> 1"
proof -
  from assms(1) obtain r0 where
    f: "filterUnparallelizable (allTasks g) {} r0 = Inr ready"
    by (auto simp: readyInConstructionOrder_def split: sum.splits)
  show ?thesis using filterUnparallelizable_once[OF f, of s] by simp
qed

lemma tick_Started_form:
  assumes "tick maxC g = Inr (Started ks, g')"
  obtains runningTasks ready where
    "allRunningTaskKeys g = Inr runningTasks" "readyInConstructionOrder g = Inr ready"
    "int (length runningTasks) < maxC"
    "ks = take (nat (min (maxC - int (length runningTasks)) (int (length ready)))) (sort ready)"
    "g' = startTasks ks g"
  using assms
proof (cases rule: tick_cases)
  case same
  then show ?thesis by simp
next
  case (started runningTasks ready)
  then show ?thesis using that[of runningTasks ready] by simp
qed

text \<open>The tasks a tick starts were ready, and all that changes is their status.\<close>

lemma tick_started:
  assumes "tick maxC g = Inr (Started ks, g')"
  shows "g' = startTasks ks g" and "\<forall>k\<in>set ks. isTaskReady g k = Inr True"
    and "\<forall>k\<in>set ks. k \<in> set (sortedTaskKeys g)"
    and "\<exists>runningTasks. allRunningTaskKeys g = Inr runningTasks \<and>
           int (length runningTasks) + int (length ks) \<le> maxC"
proof -
  from assms obtain runningTasks ready where
    run: "allRunningTaskKeys g = Inr runningTasks"
    and rd: "readyInConstructionOrder g = Inr ready"
    and lt: "int (length runningTasks) < maxC"
    and ks: "ks = take (nat (min (maxC - int (length runningTasks)) (int (length ready)))) (sort ready)"
    and g': "g' = startTasks ks g"
    by (rule tick_Started_form)
  show "g' = startTasks ks g" using g' .
  have sub: "set ks \<subseteq> set ready" using ks by (auto dest: in_set_takeD)
  show "\<forall>k\<in>set ks. isTaskReady g k = Inr True" using sub ready_keys[OF rd] by auto
  show "\<forall>k\<in>set ks. k \<in> set (sortedTaskKeys g)" using sub ready_in_sorted[OF rd] by auto
  have "int (length ks) \<le> maxC - int (length runningTasks)" using ks lt by simp
  then show "\<exists>runningTasks. allRunningTaskKeys g = Inr runningTasks \<and>
           int (length runningTasks) + int (length ks) \<le> maxC"
    using run by auto
qed

lemma tick_not_started:
  assumes "tick maxC g = Inr (r, g')" and "\<forall>ks. r \<noteq> Started ks"
  shows "g' = g"
  using assms by (cases rule: tick_cases) auto

section \<open>The scheduler: invariants of a run\<close>

lemma isSuccess_simps [simp]:
  "\<not> isSuccess Pending" "\<not> isSuccess Running" "\<not> isSuccess Failure"
  "isSuccess SuccessEager" "isSuccess SuccessLazy"
  by (simp_all add: isSuccess_def)

lemma startTasks_keeps_success:
  assumes ready: "\<forall>k\<in>set ks. isTaskReady g k = Inr True"
    and d: "allTasks g d = Some td" "isSuccess (t_status td)"
  shows "allTasks (startTasks ks' g) d = Some td \<or> d \<in> set ks'"
  using d by (auto simp: allTasks_startTasks)

lemma success_not_ready:
  assumes "isTaskReady g k = Inr True" and "allTasks g k = Some t"
  shows "\<not> isSuccess (t_status t)"
  using assms by (auto simp: isTaskReady_True)

lemma startedAfterDeps_startTasks:
  assumes inv: "startedAfterDeps g"
    and ready: "\<forall>k\<in>set ks. isTaskReady g k = Inr True"
  shows "startedAfterDeps (startTasks ks g)"
  unfolding startedAfterDeps_def
proof (intro allI impI ballI)
  fix k t d
  assume kt: "allTasks (startTasks ks g) k = Some t \<and> t_status t \<noteq> Pending"
    and d: "d \<in> set (t_dependencies t)"
  from kt obtain t0 where t0: "allTasks g k = Some t0" "t_dependencies t0 = t_dependencies t"
    and st: "k \<in> set ks \<or> t_status t0 \<noteq> Pending"
    by (auto simp: allTasks_startTasks split: if_splits)
  have "\<exists>td. allTasks g d = Some td \<and> isSuccess (t_status td)"
  proof (cases "k \<in> set ks")
    case True
    then have "isTaskReady g k = Inr True" using ready by simp
    then show ?thesis using t0 d by (auto simp: isTaskReady_True)
  next
    case False
    then show ?thesis using st t0 d inv unfolding startedAfterDeps_def by metis
  qed
  then obtain td where td: "allTasks g d = Some td" "isSuccess (t_status td)" by auto
  then have "d \<notin> set ks" using ready success_not_ready by blast
  then show "\<exists>td. allTasks (startTasks ks g) d = Some td \<and> isSuccess (t_status td)"
    using td by (auto simp: allTasks_startTasks)
qed

lemma startedAfterDeps_finish:
  assumes inv: "startedAfterDeps g"
    and k: "allTasks g k = Some t" "t_status t = Running"
  shows "startedAfterDeps (setStatus k st g)"
  unfolding startedAfterDeps_def
proof (intro allI impI ballI)
  fix q tq d
  assume q: "allTasks (setStatus k st g) q = Some tq \<and> t_status tq \<noteq> Pending"
    and d: "d \<in> set (t_dependencies tq)"
  from q k obtain t0 where t0: "allTasks g q = Some t0" "t_dependencies t0 = t_dependencies tq"
    and st: "t_status t0 \<noteq> Pending"
    by (auto simp: allTasks_setStatus split: if_splits)
  then obtain td where td: "allTasks g d = Some td" "isSuccess (t_status td)"
    using inv d unfolding startedAfterDeps_def by metis
  then have "d \<noteq> k" using k by auto
  then show "\<exists>td. allTasks (setStatus k st g) d = Some td \<and> isSuccess (t_status td)"
    using td by (auto simp: allTasks_setStatus)
qed

lemma startedAfterDeps_initial: "allPending g \<Longrightarrow> startedAfterDeps g"
  by (auto simp: allPending_def startedAfterDeps_def)

lemma reach_startedAfterDeps:
  assumes "reach maxC g0 ph g" and "allPending g0"
  shows "startedAfterDeps g"
  using assms
proof (induction rule: reach.induct)
  case reach_start
  then show ?case by (simp add: startedAfterDeps_initial)
next
  case (reach_tick g r g')
  then have inv: "startedAfterDeps g" by simp
  show ?case
  proof (cases r)
    case (Started ks)
    with reach_tick.hyps(2) have "g' = startTasks ks g" "\<forall>k\<in>set ks. isTaskReady g k = Inr True"
      using tick_started by blast+
    then show ?thesis using inv by (simp add: startedAfterDeps_startTasks)
  qed (use reach_tick.hyps(2) inv tick_not_started in auto)
next
  case (reach_tick_raises g e)
  then show ?case by simp
next
  case (reach_in_tick g ks g' i)
  then have inv: "startedAfterDeps g" by simp
  have "\<forall>k\<in>set ks. isTaskReady g k = Inr True"
    using tick_started(2)[OF reach_in_tick.hyps(2)] .
  then have "\<forall>k\<in>set (take i ks). isTaskReady g k = Inr True" by (auto dest: in_set_takeD)
  then show ?case using inv by (simp add: startedAfterDeps_startTasks)
next
  case (reach_finish g k t didRunTask didSucceed)
  then show ?case by (simp add: startedAfterDeps_finish)
qed



lemma finalStatus_not_Running [simp]: "finalStatus a b \<noteq> Running"
  by (simp add: finalStatus_def)

lemma finalStatus_not_Pending [simp]: "finalStatus a b \<noteq> Pending"
  by (simp add: finalStatus_def)

lemma runningSet_startTasks: "runningSet (startTasks ks g) \<subseteq> runningSet g \<union> set ks"
  by (auto simp: runningSet_def allTasks_startTasks split: if_splits)

lemma runningSet_finish: "st \<noteq> Running \<Longrightarrow> runningSet (setStatus k st g) \<subseteq> runningSet g"
  by (auto simp: runningSet_def allTasks_setStatus split: if_splits)

lemma runningSet_listed:
  assumes "startedInList g"
  shows "runningSet g \<subseteq> set (sortedTaskKeys g)"
  using assms by (auto simp: runningSet_def startedInList_def)

lemma allRunningTaskKeys_set:
  assumes "allRunningTaskKeys g = Inr rs" and "startedInList g"
  shows "runningSet g = set rs"
proof -
  have rs: "rs = filter (\<lambda>k. (case allTasks g k of None \<Rightarrow> Inl (TypeError k)
                               | Some t \<Rightarrow> Inr (t_status t = Running)) = Inr True)
                 (sortedTaskKeys g)"
    using assms(1) unfolding allRunningTaskKeys_def by (rule filterKeys_Inr)
  show ?thesis
    using runningSet_listed[OF assms(2)]
    by (auto simp: rs runningSet_def split: option.splits)
qed

lemma startedInList_startTasks:
  assumes "startedInList g" and "\<forall>k\<in>set ks. k \<in> set (sortedTaskKeys g)"
  shows "startedInList (startTasks ks g)"
  using assms
  by (auto simp: startedInList_def allTasks_startTasks split: if_splits)

lemma startedInList_finish:
  assumes "startedInList g" and "allTasks g k = Some t" and "t_status t = Running"
  shows "startedInList (setStatus k st g)"
  using assms
  by (auto simp: startedInList_def allTasks_setStatus split: if_splits)

lemma started_bound:
  assumes inv: "startedInList g" and bound: "int (card (runningSet g)) \<le> maxC"
    and t: "tick maxC g = Inr (Started ks, g')"
  shows "int (card (runningSet (startTasks (take i ks) g))) \<le> maxC"
proof -
  from tick_started(4)[OF t] obtain rs where
    rs: "allRunningTaskKeys g = Inr rs" and le: "int (length rs) + int (length ks) \<le> maxC"
    by auto
  have eq: "runningSet g = set rs" using rs inv by (rule allRunningTaskKeys_set)
  have "card (runningSet (startTasks (take i ks) g)) \<le> card (set rs \<union> set (take i ks))"
    using runningSet_startTasks[of "take i ks" g] eq by (simp add: card_mono)
  also have "\<dots> \<le> card (set rs) + card (set (take i ks))" by (rule card_Un_le)
  also have "\<dots> \<le> length rs + length (take i ks)"
    using card_length[of rs] card_length[of "take i ks"] by linarith
  also have "\<dots> \<le> length rs + length ks" by simp
  finally show ?thesis using le by linarith
qed

lemma reach_running_bound:
  assumes "reach maxC g0 ph g" and "allPending g0" and "0 \<le> maxC"
  shows "sortedTaskKeys g = sortedTaskKeys g0 \<and> startedInList g \<and>
         int (card (runningSet g)) \<le> maxC"
  using assms
proof (induction rule: reach.induct)
  case reach_start
  then have "runningSet g0 = {}" by (auto simp: runningSet_def allPending_def)
  then show ?case using reach_start by (auto simp: startedInList_def allPending_def)
next
  case (reach_tick g r g')
  then have inv: "sortedTaskKeys g = sortedTaskKeys g0" "startedInList g"
    "int (card (runningSet g)) \<le> maxC" by simp_all
  show ?case
  proof (cases r)
    case (Started ks)
    with reach_tick.hyps(2) have t: "tick maxC g = Inr (Started ks, g')" by simp
    have g': "g' = startTasks ks g" using tick_started(1)[OF t] .
    have "int (card (runningSet (startTasks (take (length ks) ks) g))) \<le> maxC"
      using inv(2,3) t by (rule started_bound)
    moreover have "startedInList (startTasks ks g)"
      using inv(2) tick_started(3)[OF t] by (rule startedInList_startTasks)
    ultimately show ?thesis using inv(1) g' by simp
  qed (use reach_tick.hyps(2) inv tick_not_started in auto)
next
  case (reach_tick_raises g e)
  then show ?case by simp
next
  case (reach_in_tick g ks g' i)
  then have inv: "sortedTaskKeys g = sortedTaskKeys g0" "startedInList g"
    "int (card (runningSet g)) \<le> maxC" by simp_all
  note t = reach_in_tick.hyps(2)
  have "int (card (runningSet (startTasks (take i ks) g))) \<le> maxC"
    using inv(2,3) t by (rule started_bound)
  moreover have "startedInList (startTasks (take i ks) g)"
    using inv(2) tick_started(3)[OF t] by (intro startedInList_startTasks) (auto dest: in_set_takeD)
  ultimately show ?case using inv(1) by simp
next
  case (reach_finish g k t didRunTask didSucceed)
  then have inv: "sortedTaskKeys g = sortedTaskKeys g0" "startedInList g"
    "int (card (runningSet g)) \<le> maxC" by simp_all
  have fin: "finite (runningSet g)"
    using runningSet_listed[OF inv(2)] by (rule finite_subset) simp
  have "card (runningSet (setStatus k (finalStatus didRunTask didSucceed) g)) \<le> card (runningSet g)"
    using fin by (intro card_mono runningSet_finish) simp_all
  moreover have "startedInList (setStatus k (finalStatus didRunTask didSucceed) g)"
    using inv(2) reach_finish.hyps(2,3) by (rule startedInList_finish)
  ultimately show ?case using inv(1,3) by simp
qed

lemma maxConcurrentTasks_pos: "1 \<le> maxConcurrentTasks forceParallel isTest numCpus"
  by (simp add: maxConcurrentTasks_def)

section \<open>The sample run\<close>

lemma exBuildGraph_allPending: "allPending exBuildGraph"
  using exBuildGraph_built by (rule TaskGraph_allPending)

lemma tick_result_graph:
  assumes "map_sum id fst (tick maxC g) = Inr r"
  obtains g' where "tick maxC g = Inr (r, g')"
  using assms by (cases "tick maxC g") auto

lemma exTick_first: "tick 2 exBuildGraph = Inr (Started [''build::/r/b'', ''build::/r/c''], exStartedGraph)"
proof -
  have "map_sum id fst (tick 2 exBuildGraph) = Inr (Started [''build::/r/b'', ''build::/r/c''])"
    unfolding exBuildGraph_def by code_simp
  then obtain g' where t: "tick 2 exBuildGraph = Inr (Started [''build::/r/b'', ''build::/r/c''], g')"
    by (rule tick_result_graph)
  then show ?thesis using tick_started(1)[OF t] by (simp add: exStartedGraph_def)
qed

lemma exStarted_status:
  "map (\<lambda>k. map_option t_status (allTasks exStartedGraph k))
     [''build::/r/c'', ''build::/r/a'', ''build::/r/b''] = [Some Running, Some Pending, Some Running]"
  unfolding exStartedGraph_def exBuildGraph_def by code_simp

lemma exTick_second: "tick 2 exFailedGraph = Inr (Waiting, exFailedGraph)"
proof -
  have "map_sum id fst (tick 2 exFailedGraph) = Inr Waiting"
    unfolding exFailedGraph_def exStartedGraph_def exBuildGraph_def by code_simp
  then obtain g' where t: "tick 2 exFailedGraph = Inr (Waiting, g')"
    by (rule tick_result_graph)
  then show ?thesis using tick_not_started[OF t] by simp
qed

lemma exFailed_status:
  "map (\<lambda>k. map_option t_status (allTasks exFailedGraph k))
     [''build::/r/c'', ''build::/r/a'', ''build::/r/b''] = [Some Failure, Some Pending, Some Running]"
  unfolding exFailedGraph_def exStartedGraph_def exBuildGraph_def by code_simp

lemma exResolved_status:
  "map (\<lambda>k. map_option t_status (allTasks exResolvedGraph k))
     [''build::/r/c'', ''build::/r/a'', ''build::/r/b''] = [Some Failure, Some Pending, Some SuccessEager]"
  unfolding exResolvedGraph_def exFailedGraph_def exStartedGraph_def exBuildGraph_def by code_simp

lemma exResolved_deps:
  "map_option t_dependencies (allTasks exResolvedGraph ''build::/r/a'') = Some [''build::/r/c'']"
  unfolding exResolvedGraph_def exFailedGraph_def exStartedGraph_def exBuildGraph_def by code_simp

lemma exTick_last: "map_sum id fst (tick 2 exResolvedGraph) = Inr Resolved"
  unfolding exResolvedGraph_def exFailedGraph_def exStartedGraph_def exBuildGraph_def by code_simp

lemma exReach_started: "reach 2 exBuildGraph Idle exStartedGraph"
  using reach_start exTick_first by (rule reach_tick)

lemma exReach_failed: "reach 2 exBuildGraph BeforeTick exFailedGraph"
proof -
  obtain t where "allTasks exStartedGraph ''build::/r/c'' = Some t" "t_status t = Running"
    using exStarted_status by auto
  with exReach_started
  have "reach 2 exBuildGraph BeforeTick (setStatus ''build::/r/c'' (finalStatus True False) exStartedGraph)"
    by (rule reach_finish)
  then show ?thesis by (simp add: exFailedGraph_def finalStatus_def)
qed

lemma exReach_resolved: "reach 2 exBuildGraph BeforeTick exResolvedGraph"
proof -
  have idle: "reach 2 exBuildGraph Idle exFailedGraph"
    using exReach_failed exTick_second by (rule reach_tick)
  obtain t where "allTasks exFailedGraph ''build::/r/b'' = Some t" "t_status t = Running"
    using exFailed_status by auto
  with idle
  have "reach 2 exBuildGraph BeforeTick (setStatus ''build::/r/b'' (finalStatus True True) exFailedGraph)"
    by (rule reach_finish)
  then show ?thesis by (simp add: exResolvedGraph_def finalStatus_def)
qed

section \<open>Tasks start only after their dependencies have succeeded\<close>

text \<open>
  Claim C2. In every state of a run of \<^verbatim>\<open>runAllTasks\<close> that starts from a graph whose
  tasks are all pending: a task with a dependency in status \<^verbatim>\<open>failure\<close> is pending (so it
  has not been started, and it is pending in the state in which the run resolves); and a
  tick changes only the tasks it starts, each of which was pending, becomes running, and
  has every dependency in a success status in every state of the loop that starts them.
\<close>

theorem started_only_after_dependencies:
  assumes "allPending g0" and "reach maxC g0 ph g"
  shows "(\<forall>k t d td. allTasks g k = Some t \<and> d \<in> set (t_dependencies t) \<and>
                     allTasks g d = Some td \<and> t_status td = Failure \<longrightarrow> t_status t = Pending) \<and>
         (\<forall>r g'. tick maxC g = Inr (r, g') \<longrightarrow>
            (\<forall>k. allTasks g' k \<noteq> allTasks g k \<longrightarrow> (\<exists>ks. r = Started ks \<and> k \<in> set ks)) \<and>
            (\<forall>ks. r = Started ks \<longrightarrow>
               (\<forall>k\<in>set ks. \<exists>t. allTasks g k = Some t \<and> t_status t = Pending \<and>
                   allTasks g' k = Some (t\<lparr>t_status := Running\<rparr>) \<and>
                   (\<forall>i\<le>length ks. \<forall>d\<in>set (t_dependencies t).
                       \<exists>td. allTasks (startTasks (take i ks) g) d = Some td \<and>
                            isSuccess (t_status td)))))"
proof -
  have inv: "startedAfterDeps g" using assms(2,1) by (rule reach_startedAfterDeps)
  have first: "t_status t = Pending"
    if kt: "allTasks g k = Some t" "d \<in> set (t_dependencies t)"
      and dt: "allTasks g d = Some td" "t_status td = Failure" for k t d td
  proof (rule ccontr)
    assume "t_status t \<noteq> Pending"
    then obtain td' where "allTasks g d = Some td'" "isSuccess (t_status td')"
      using inv kt unfolding startedAfterDeps_def by metis
    then show False using dt by simp
  qed
  have second:
    "(\<forall>k. allTasks g' k \<noteq> allTasks g k \<longrightarrow> (\<exists>ks. r = Started ks \<and> k \<in> set ks)) \<and>
     (\<forall>ks. r = Started ks \<longrightarrow>
        (\<forall>k\<in>set ks. \<exists>t. allTasks g k = Some t \<and> t_status t = Pending \<and>
            allTasks g' k = Some (t\<lparr>t_status := Running\<rparr>) \<and>
            (\<forall>i\<le>length ks. \<forall>d\<in>set (t_dependencies t).
                \<exists>td. allTasks (startTasks (take i ks) g) d = Some td \<and>
                     isSuccess (t_status td))))"
    if t: "tick maxC g = Inr (r, g')" for r g'
  proof (cases r)
    case (Started ks)
    with t have t': "tick maxC g = Inr (Started ks, g')" by simp
    note g' = tick_started(1)[OF t'] and ready = tick_started(2)[OF t']
    have changed: "\<forall>k. allTasks g' k \<noteq> allTasks g k \<longrightarrow> (\<exists>ks. r = Started ks \<and> k \<in> set ks)"
      using Started g' by (auto simp: allTasks_startTasks)
    have each: "\<exists>t. allTasks g k = Some t \<and> t_status t = Pending \<and>
                   allTasks g' k = Some (t\<lparr>t_status := Running\<rparr>) \<and>
                   (\<forall>i\<le>length ks. \<forall>d\<in>set (t_dependencies t).
                       \<exists>td. allTasks (startTasks (take i ks) g) d = Some td \<and>
                            isSuccess (t_status td))"
      if k: "k \<in> set ks" for k
    proof -
      from ready k obtain t where kt: "allTasks g k = Some t" "t_status t = Pending"
        and deps: "\<forall>d\<in>set (t_dependencies t). \<exists>td. allTasks g d = Some td \<and> isSuccess (t_status td)"
        by (auto simp: isTaskReady_True)
      have "\<exists>td. allTasks (startTasks (take i ks) g) d = Some td \<and> isSuccess (t_status td)"
        if dmem: "d \<in> set (t_dependencies t)" for i d
      proof -
        from deps dmem obtain td where td: "allTasks g d = Some td" "isSuccess (t_status td)"
          by auto
        then have "d \<notin> set ks" using ready success_not_ready by blast
        then have "d \<notin> set (take i ks)" by (auto dest: in_set_takeD)
        then show ?thesis using td by (auto simp: allTasks_startTasks)
      qed
      then show ?thesis using kt k g' by (auto simp: allTasks_startTasks)
    qed
    show ?thesis using changed each Started by auto
  qed (use t tick_not_started in auto)
  show ?thesis using first second by blast
qed

theorem started_only_after_dependencies_witness:
  "allPending exBuildGraph \<and> reach 2 exBuildGraph BeforeTick exResolvedGraph \<and>
   map_sum id fst (tick 2 exResolvedGraph) = Inr Resolved \<and>
   map_option t_dependencies (allTasks exResolvedGraph ''build::/r/a'') = Some [''build::/r/c''] \<and>
   map_option t_status (allTasks exResolvedGraph ''build::/r/c'') = Some Failure \<and>
   map_option t_status (allTasks exResolvedGraph ''build::/r/a'') = Some Pending \<and>
   tick 2 exBuildGraph = Inr (Started [''build::/r/b'', ''build::/r/c''], exStartedGraph) \<and>
   map_option t_status (allTasks exStartedGraph ''build::/r/b'') = Some Running"
proof -
  note main = started_only_after_dependencies[OF exBuildGraph_allPending exReach_resolved]
  note start = started_only_after_dependencies[OF exBuildGraph_allPending reach_start, of 2]
  obtain ta where ta: "allTasks exResolvedGraph ''build::/r/a'' = Some ta"
    "''build::/r/c'' \<in> set (t_dependencies ta)"
    using exResolved_deps by auto
  obtain tc where tc: "allTasks exResolvedGraph ''build::/r/c'' = Some tc" "t_status tc = Failure"
    using exResolved_status by auto
  have "t_status ta = Pending" using main ta tc by blast
  then have a: "map_option t_status (allTasks exResolvedGraph ''build::/r/a'') = Some Pending"
    using ta by simp
  have "\<exists>t. allTasks exBuildGraph ''build::/r/b'' = Some t \<and> t_status t = Pending \<and>
            allTasks exStartedGraph ''build::/r/b'' = Some (t\<lparr>t_status := Running\<rparr>)"
    using start exTick_first by fastforce
  then have b: "map_option t_status (allTasks exStartedGraph ''build::/r/b'') = Some Running"
    by auto
  show ?thesis
    using exBuildGraph_allPending exReach_resolved exTick_last exResolved_deps tc a exTick_first b
    by simp
qed

section \<open>At most \<open>maxConcurrentTasks\<close> tasks run at a time\<close>

text \<open>
  Claim C3. In every state of a run that starts from a graph whose tasks are all pending,
  also inside the loop of a tick and between the end of a task and the tick that follows
  it, the number of tasks whose status is \<^verbatim>\<open>running\<close> is at most \<open>maxConcurrentTasks\<close>,
  which is 2 when the force-parallel variable is set, else 1 in test mode, else
  \<open>max 1 (numCpus - 1)\<close>.
\<close>

theorem running_tasks_bounded:
  assumes "allPending g0"
    and "reach (maxConcurrentTasks forceParallel isTest numCpus) g0 ph g"
  shows "finite (runningSet g) \<and>
         int (card (runningSet g)) \<le> maxConcurrentTasks forceParallel isTest numCpus \<and>
         maxConcurrentTasks forceParallel isTest numCpus =
           (if envIsSet forceParallel then 2 else if isTest then 1 else max 1 (int numCpus - 1))"
proof -
  have "0 \<le> maxConcurrentTasks forceParallel isTest numCpus"
    using maxConcurrentTasks_pos[of forceParallel isTest numCpus] by simp
  with assms have inv: "startedInList g"
    "int (card (runningSet g)) \<le> maxConcurrentTasks forceParallel isTest numCpus"
    using reach_running_bound by blast+
  have "finite (runningSet g)"
    using runningSet_listed[OF inv(1)] by (rule finite_subset) simp
  then show ?thesis using inv(2) by (simp add: maxConcurrentTasks_def)
qed

theorem running_tasks_bounded_witness:
  "allPending exBuildGraph \<and>
   reach (maxConcurrentTasks (Some ''true'') True 8) exBuildGraph Idle exStartedGraph \<and>
   finite (runningSet exStartedGraph) \<and>
   int (card (runningSet exStartedGraph)) \<le> 2 \<and>
   ''build::/r/b'' \<in> runningSet exStartedGraph \<and>
   ''build::/r/c'' \<in> runningSet exStartedGraph"
proof -
  have m: "maxConcurrentTasks (Some ''true'') True 8 = 2"
    by (simp add: maxConcurrentTasks_def envIsSet_def)
  have r: "reach (maxConcurrentTasks (Some ''true'') True 8) exBuildGraph Idle exStartedGraph"
    using exReach_started by (simp add: m)
  have "''build::/r/b'' \<in> runningSet exStartedGraph" "''build::/r/c'' \<in> runningSet exStartedGraph"
    using exStarted_status by (auto simp: runningSet_def)
  then show ?thesis
    using running_tasks_bounded[OF exBuildGraph_allPending r] exBuildGraph_allPending r
    by (simp add: m)
qed

section \<open>One task without \<open>parallel\<close> per script name and tick\<close>

text \<open>
  Claim C5. Among the tasks a single tick starts there is, for every script name, at
  most one task whose configuration has \<^verbatim>\<open>parallel\<close> false; the tick turns exactly the
  tasks it starts to running and leaves every other task as it was.
\<close>

theorem one_unparallelizable_per_script:
  assumes "tick maxC g = Inr (Started ks, g')"
  shows "length (filter (unparallelizable g s) ks) \<le> 1 \<and>
         g' = startTasks ks g \<and>
         (\<forall>k. k \<notin> set ks \<longrightarrow> allTasks g' k = allTasks g k)"
proof -
  from assms obtain runningTasks ready where
    "allRunningTaskKeys g = Inr runningTasks"
    and rd: "readyInConstructionOrder g = Inr ready"
    and "int (length runningTasks) < maxC"
    and ks: "ks = take (nat (min (maxC - int (length runningTasks)) (int (length ready)))) (sort ready)"
    and "g' = startTasks ks g"
    by (rule tick_Started_form)
  have "length (filter (unparallelizable g s) ks) \<le> length (filter (unparallelizable g s) (sort ready))"
    unfolding ks by (rule length_filter_take)
  also have "\<dots> = length (filter (unparallelizable g s) ready)" by (rule length_filter_sort)
  also have "\<dots> \<le> 1" using rd by (rule ready_once)
  finally have "length (filter (unparallelizable g s) ks) \<le> 1" .
  moreover have "g' = startTasks ks g" using tick_started(1)[OF assms] .
  ultimately show ?thesis by (simp add: allTasks_startTasks)
qed

lemma exSerial_tick:
  "map_sum id fst (tick 2 exSerialGraph) = Inr (Started [''build::/r/a''])"
  unfolding exSerialGraph_def by code_simp

lemma exSerial_ready:
  "filterKeys (isTaskReady exSerialGraph) (sortedTaskKeys exSerialGraph)
     = Inr [''build::/r/a'', ''build::/r/b'', ''build::/r/c'']"
  unfolding exSerialGraph_def by code_simp

lemma exSerial_unparallelizable:
  "filter (unparallelizable exSerialGraph ''build'') [''build::/r/a'', ''build::/r/b'', ''build::/r/c'']
     = [''build::/r/a'', ''build::/r/b'', ''build::/r/c'']"
  unfolding exSerialGraph_def by code_simp

theorem one_unparallelizable_per_script_witness:
  "filterKeys (isTaskReady exSerialGraph) (sortedTaskKeys exSerialGraph)
     = Inr [''build::/r/a'', ''build::/r/b'', ''build::/r/c''] \<and>
   filter (unparallelizable exSerialGraph ''build'') [''build::/r/a'', ''build::/r/b'', ''build::/r/c'']
     = [''build::/r/a'', ''build::/r/b'', ''build::/r/c''] \<and>
   tick 2 exSerialGraph = Inr (Started [''build::/r/a''], startTasks [''build::/r/a''] exSerialGraph) \<and>
   length (filter (unparallelizable exSerialGraph ''build'') [''build::/r/a'']) \<le> 1 \<and>
   allTasks (startTasks [''build::/r/a''] exSerialGraph) ''build::/r/b''
     = allTasks exSerialGraph ''build::/r/b''"
proof -
  obtain g' where t: "tick 2 exSerialGraph = Inr (Started [''build::/r/a''], g')"
    using exSerial_tick by (rule tick_result_graph)
  note main = one_unparallelizable_per_script[OF t, of "''build''"]
  then have g': "g' = startTasks [''build::/r/a''] exSerialGraph" by simp
  show ?thesis
    using main t exSerial_ready exSerial_unparallelizable unfolding g' by simp
qed

section \<open>Which ready tasks a tick starts\<close>

text \<open>
  Claim C4, as stated, fails: the ready keys are sorted as strings before the first of
  them are started, so the choice does not follow the order of \<^verbatim>\<open>sortedTaskKeys\<close>. In
  the sample graph that order is \<open>c\<close>, \<open>a\<close>, \<open>b\<close>; \<open>c\<close> and \<open>b\<close> are ready; with one
  slot the tick starts \<open>b\<close>, and the construction order would start \<open>c\<close>.
\<close>

theorem started_by_construction_order_counterexample:
  "map_sum id fst (tick 1 exBuildGraph) = Inr (Started [''build::/r/b'']) \<and>
   startedByConstructionOrder 1 exBuildGraph = Inr [''build::/r/c''] \<and>
   map_sum id fst (tick 1 exBuildGraph) \<noteq> map_sum id Started (startedByConstructionOrder 1 exBuildGraph)"
proof -
  have a: "map_sum id fst (tick 1 exBuildGraph) = Inr (Started [''build::/r/b''])"
    unfolding exBuildGraph_def by code_simp
  have b: "startedByConstructionOrder 1 exBuildGraph = Inr [''build::/r/c'']"
    unfolding exBuildGraph_def by code_simp
  show ?thesis unfolding a b by simp
qed

text \<open>
  The two filters of \<^verbatim>\<open>allReadyTaskKeys\<close> compute the ready list of the amended
  specification: the set of script names that the second filter threads through holds
  the script names of the tasks without \<^verbatim>\<open>parallel\<close> it has passed.
\<close>

lemma filterUnparallelizable_keptAfter:
  assumes "filterUnparallelizable (allTasks g) seen ks = Inr r"
    and "seen = {s. \<exists>k'\<in>set earlier. unparallelizable g s k'}"
  shows "r = keptAfter g earlier ks"
  using assms
proof (induction ks arbitrary: seen earlier r)
  case Nil
  then show ?case by simp
next
  case (Cons k ks)
  from Cons.prems(1) obtain t where t: "allTasks g k = Some t" by (auto split: option.splits)
  have conf: "(\<exists>k'\<in>set earlier. conflicts g k' k) \<longleftrightarrow>
              \<not> tc_parallel (t_taskConfig t) \<and> t_scriptName t \<in> seen"
    using t unfolding Cons.prems(2)
    by (auto simp: conflicts_def unparallelizable_def split: option.splits)
  show ?case
  proof (cases "tc_parallel (t_taskConfig t)")
    case True
    with Cons.prems(1) t obtain r' where
      r': "filterUnparallelizable (allTasks g) seen ks = Inr r'" "r = k # r'"
      by (auto split: sum.splits)
    have "seen = {s. \<exists>k'\<in>set (earlier @ [k]). unparallelizable g s k'}"
      using True t unfolding Cons.prems(2) by (auto simp: unparallelizable_def)
    with r'(1) have "r' = keptAfter g (earlier @ [k]) ks" by (rule Cons.IH)
    then show ?thesis using r'(2) conf True by simp
  next
    case False
    have unp: "unparallelizable g (t_scriptName t) k"
      using t False by (simp add: unparallelizable_def)
    show ?thesis
    proof (cases "t_scriptName t \<in> seen")
      case True
      with Cons.prems(1) t False have run: "filterUnparallelizable (allTasks g) seen ks = Inr r"
        by simp
      have "seen = {s. \<exists>k'\<in>set (earlier @ [k]). unparallelizable g s k'}"
        using True t False unfolding Cons.prems(2) by (auto simp: unparallelizable_def)
      with run have "r = keptAfter g (earlier @ [k]) ks" by (rule Cons.IH)
      then show ?thesis using conf True False by simp
    next
      case notseen: False
      with Cons.prems(1) t False obtain r' where
        r': "filterUnparallelizable (allTasks g) (insert (t_scriptName t) seen) ks = Inr r'"
          "r = k # r'"
        by (auto split: sum.splits)
      have "insert (t_scriptName t) seen = {s. \<exists>k'\<in>set (earlier @ [k]). unparallelizable g s k'}"
        using t False unfolding Cons.prems(2) by (auto simp: unparallelizable_def)
      with r'(1) have "r' = keptAfter g (earlier @ [k]) ks" by (rule Cons.IH)
      then show ?thesis using r'(2) conf notseen by simp
    qed
  qed
qed

lemma readyInConstructionOrder_spec:
  assumes "readyInConstructionOrder g = Inr ready"
  shows "ready = readyBySpec g"
proof -
  from assms obtain r0 where r0: "filterKeys (isTaskReady g) (sortedTaskKeys g) = Inr r0"
    and f: "filterUnparallelizable (allTasks g) {} r0 = Inr ready"
    by (auto simp: readyInConstructionOrder_def split: sum.splits)
  have "r0 = filter (\<lambda>k. isTaskReady g k = Inr True) (sortedTaskKeys g)"
    using r0 by (rule filterKeys_Inr)
  moreover have "ready = keptAfter g [] r0"
    using f by (rule filterUnparallelizable_keptAfter) simp
  ultimately show ?thesis by (simp add: readyBySpec_def)
qed

text \<open>
  Claim C4, amended. The ready list holds the ready keys in the order of
  \<^verbatim>\<open>sortedTaskKeys\<close>, where a task without \<^verbatim>\<open>parallel\<close> is kept only when it is the
  first ready one of its script name in that order. The tasks a tick starts are the
  first keys of this list sorted in ascending order of the key strings, as many as the
  smaller of the number of free slots and the length of the list: the started keys are
  in ascending order and no key of the list that is left waiting is smaller than a
  started one.
\<close>

theorem started_in_key_order:
  assumes "tick maxC g = Inr (Started ks, g')"
  shows "\<exists>runningTasks.
           allRunningTaskKeys g = Inr runningTasks \<and>
           length ks = nat (min (maxC - int (length runningTasks)) (int (length (readyBySpec g)))) \<and>
           ks = take (length ks) (sort (readyBySpec g)) \<and> sorted ks \<and>
           (\<forall>a\<in>set ks. \<forall>b\<in>set (drop (length ks) (sort (readyBySpec g))). a \<le> b)"
proof -
  from assms obtain runningTasks ready where
    run: "allRunningTaskKeys g = Inr runningTasks"
    and rd: "readyInConstructionOrder g = Inr ready"
    and "int (length runningTasks) < maxC"
    and ks: "ks = take (nat (min (maxC - int (length runningTasks)) (int (length ready)))) (sort ready)"
    and "g' = startTasks ks g"
    by (rule tick_Started_form)
  have spec: "ready = readyBySpec g" using rd by (rule readyInConstructionOrder_spec)
  define n where "n = nat (min (maxC - int (length runningTasks)) (int (length ready)))"
  have len: "length ks = n" unfolding ks n_def by simp
  have "sorted (take n (sort ready) @ drop n (sort ready))" by simp
  then have "sorted (take n (sort ready))"
    and "\<forall>a\<in>set (take n (sort ready)). \<forall>b\<in>set (drop n (sort ready)). a \<le> b"
    unfolding sorted_append by blast+
  then show ?thesis using run len ks spec unfolding n_def by auto
qed

lemma exMixed_sorted:
  "sortedTaskKeys exMixedGraph =
     [''test::/r/a'', ''test::/r/b'', ''test::/r/c'', ''build::/r/c'', ''build::/r/a'', ''build::/r/b'']"
  unfolding exMixedGraph_def by code_simp

lemma exMixed_ready:
  "filter (\<lambda>k. isTaskReady exMixedGraph k = Inr True) (sortedTaskKeys exMixedGraph) =
     [''test::/r/a'', ''test::/r/b'', ''test::/r/c'', ''build::/r/c'', ''build::/r/b'']"
  unfolding exMixedGraph_def by code_simp

lemma exMixed_spec:
  "readyBySpec exMixedGraph = [''test::/r/a'', ''test::/r/b'', ''test::/r/c'', ''build::/r/c'']"
  unfolding readyBySpec_def exMixedGraph_def by code_simp

lemma exMixed_tick:
  "map_sum id fst (tick 2 exMixedGraph) = Inr (Started [''build::/r/c'', ''test::/r/a''])"
  unfolding exMixedGraph_def by code_simp

theorem started_in_key_order_witness:
  "sortedTaskKeys exMixedGraph =
     [''test::/r/a'', ''test::/r/b'', ''test::/r/c'', ''build::/r/c'', ''build::/r/a'', ''build::/r/b''] \<and>
   filter (\<lambda>k. isTaskReady exMixedGraph k = Inr True) (sortedTaskKeys exMixedGraph) =
     [''test::/r/a'', ''test::/r/b'', ''test::/r/c'', ''build::/r/c'', ''build::/r/b''] \<and>
   readyBySpec exMixedGraph = [''test::/r/a'', ''test::/r/b'', ''test::/r/c'', ''build::/r/c''] \<and>
   map_sum id fst (tick 2 exMixedGraph) = Inr (Started [''build::/r/c'', ''test::/r/a'']) \<and>
   [''build::/r/c'', ''test::/r/a''] = take 2 (sort (readyBySpec exMixedGraph)) \<and>
   sorted [''build::/r/c'', ''test::/r/a'']"
proof -
  obtain g' where t: "tick 2 exMixedGraph = Inr (Started [''build::/r/c'', ''test::/r/a''], g')"
    using exMixed_tick by (rule tick_result_graph)
  from started_in_key_order[OF t]
  have "[''build::/r/c'', ''test::/r/a''] =
          take (length [''build::/r/c'', ''test::/r/a'']) (sort (readyBySpec exMixedGraph))"
    and "sorted [''build::/r/c'', ''test::/r/a'']"
    by blast+
  then show ?thesis using exMixed_sorted exMixed_ready exMixed_spec exMixed_tick by simp
qed

section \<open>Output capture: the copy loop\<close>

lemma copy_step_fields [simp]:
  "projectFiles (manifestWrite l (copyFileWithMtime p f s)) = projectFiles s"
  "outManifest (manifestWrite l (copyFileWithMtime p f s)) = outManifest s"
  "taskOutputFiles (manifestWrite l (copyFileWithMtime p f s)) = taskOutputFiles s"
  "outDir (manifestWrite l (copyFileWithMtime p f s))
     = Some ((case outDir s of None \<Rightarrow> Map.empty | Some m \<Rightarrow> m)(p \<mapsto> f))"
  by (simp_all add: manifestWrite_def copyFileWithMtime_def)


text \<open>Every entry of the output directory after the loop was there before or was copied by it.\<close>

lemma copyOutputs_outDir:
  assumes "outDir s = Some m0"
  shows "\<exists>m. outDir (snd (copyOutputs files s)) = Some m \<and>
          (\<forall>p. m p \<noteq> None \<longrightarrow>
             m p = m0 p \<or> (p \<in> set files \<and> \<not> prefix ''..'' p \<and> m p = projectFiles s p))"
  using assms
proof (induction files arbitrary: s m0)
  case Nil
  then show ?case by simp
next
  case (Cons f files)
  show ?case
  proof (cases "prefix ''..'' f")
    case True
    with Cons.prems show ?thesis by simp
  next
    case notdd: False
    show ?thesis
    proof (cases "projectFiles s f")
      case None
      with notdd Cons.prems show ?thesis by simp
    next
      case (Some st)
      let ?s1 = "manifestWrite (f, f_mtime st) (copyFileWithMtime f st s)"
      have o1: "outDir ?s1 = Some (m0(f \<mapsto> st))" using Cons.prems by simp
      from Cons.IH[OF o1] obtain m where
        m: "outDir (snd (copyOutputs files ?s1)) = Some m"
        and each: "\<forall>p. m p \<noteq> None \<longrightarrow>
             m p = (m0(f \<mapsto> st)) p \<or>
             (p \<in> set files \<and> \<not> prefix ''..'' p \<and> m p = projectFiles ?s1 p)"
        by blast
      have "copyOutputs (f # files) s = copyOutputs files ?s1"
        using notdd Some by simp
      moreover have "\<forall>p. m p \<noteq> None \<longrightarrow>
             m p = m0 p \<or> (p \<in> set (f # files) \<and> \<not> prefix ''..'' p \<and> m p = projectFiles s p)"
      proof (intro allI impI)
        fix p
        assume "m p \<noteq> None"
        with each have c: "m p = (m0(f \<mapsto> st)) p \<or>
             (p \<in> set files \<and> \<not> prefix ''..'' p \<and> m p = projectFiles s p)"
          by simp
        show "m p = m0 p \<or> (p \<in> set (f # files) \<and> \<not> prefix ''..'' p \<and> m p = projectFiles s p)"
        proof (cases "p = f")
          case True
          with c notdd Some show ?thesis by auto
        next
          case False
          with c show ?thesis by auto
        qed
      qed
      ultimately show ?thesis using m by simp
    qed
  qed
qed

lemma copyOutputs_raises:
  assumes "f \<in> set files" and "prefix ''..'' f"
  shows "fst (copyOutputs files s) \<noteq> None"
  using assms
  by (induction files arbitrary: s) (auto split: option.splits)

lemma copyOutputs_first_outside:
  assumes "f \<in> set files" and "prefix ''..'' f"
    and "\<forall>p\<in>set (takeWhile (\<lambda>p. \<not> prefix ''..'' p) files). projectFiles s p \<noteq> None"
  shows "fst (copyOutputs files s)
           = Some (OutputOutsideWorkspace (hd (dropWhile (\<lambda>p. \<not> prefix ''..'' p) files)))"
  using assms
proof (induction files arbitrary: s)
  case Nil
  then show ?case by simp
next
  case (Cons a files)
  show ?case
  proof (cases "prefix ''..'' a")
    case True
    then show ?thesis by simp
  next
    case False
    with Cons.prems obtain st where st: "projectFiles s a = Some st" by auto
    have "f \<in> set files" using Cons.prems(1,2) False by auto
    then show ?thesis using Cons.IH[of "manifestWrite (a, f_mtime st) (copyFileWithMtime a st s)"]
        Cons.prems(2,3) False st by simp
  qed
qed

lemma freshCache_fields [simp]:
  "outDir (freshCache files s) = Some Map.empty"
  "outManifest (freshCache files s) = None"
  "projectFiles (freshCache files s) = projectFiles s"
  by (simp_all add: freshCache_def createLazyWriteStream_def mkdirSync_def rimrafOutManifest_def
      rimrafOutDir_def)


lemma cacheOutputs_nonempty:
  assumes "files \<noteq> []"
  shows "cacheOutputs (Some files) s =
           (case copyOutputs files (freshCache files s) of
              (Some e, s6) \<Rightarrow> (Some e, s6)
            | (None, s6) \<Rightarrow> (None, manifestClose s6))"
  using assms by (simp add: cacheOutputs_def freshCache_def Let_def)


lemma outDir_manifestClose [simp]: "outDir (manifestClose s) = outDir s"
  by (simp add: manifestClose_def split: option.splits)

text \<open>After \<open>cacheOutputs\<close> with a non-empty file list, the output directory holds only copies made by this call.\<close>

lemma cacheOutputs_copiedOnly:
  assumes "files \<noteq> []"
  shows "copiedOnly files s (snd (cacheOutputs (Some files) s))"
proof -
  have "outDir (freshCache files s) = Some Map.empty" by simp
  from copyOutputs_outDir[OF this, of files] obtain m where
    m: "outDir (snd (copyOutputs files (freshCache files s))) = Some m"
    and each: "\<forall>p. m p \<noteq> None \<longrightarrow>
           m p = Map.empty p \<or>
           (p \<in> set files \<and> \<not> prefix ''..'' p \<and> m p = projectFiles (freshCache files s) p)"
    by blast
  have "outDir (snd (cacheOutputs (Some files) s)) = Some m"
  proof (cases "copyOutputs files (freshCache files s)")
    case (Pair r s6)
    with m show ?thesis using assms by (cases r) (simp_all add: cacheOutputs_nonempty)
  qed
  moreover have "\<forall>p. m p \<noteq> None \<longrightarrow> p \<in> set files \<and> \<not> prefix ''..'' p \<and> m p = projectFiles s p"
    using each by auto
  ultimately show ?thesis unfolding copiedOnly_def by blast
qed


lemma exCache_outDir:
  "map_option (\<lambda>m. (m ''packages/a/dist/old.js'', m ''packages/a/dist/a.js''))
     (outDir (snd (cacheOutputs (Some exOutputFiles) exCache))) = Some (None, Some exFile)"
  by code_simp

lemma exCache_stream:
  "manifestStream (snd (cacheOutputs (Some exOutputFiles) exCache))
     = Some [(''packages/a/dist/a.js'', 1700000000000)]"
  by code_simp

section \<open>Output files outside the project root are rejected\<close>

text \<open>
  Claim C8. When the list of output files has an entry that begins with two dots,
  \<open>cacheOutputs\<close> raises, and no path that begins with two dots is in the cached output
  directory it leaves; when the files listed before the first such entry all exist, the
  exception is the one for an output file outside of the workspace, naming that entry.
\<close>

theorem cacheOutputs_rejects_outside:
  assumes "f \<in> set files" and "prefix ''..'' f"
  shows "fst (cacheOutputs (Some files) s) \<noteq> None \<and>
         (\<forall>m p. outDir (snd (cacheOutputs (Some files) s)) = Some m \<and> prefix ''..'' p
                \<longrightarrow> m p = None) \<and>
         ((\<forall>p\<in>set (takeWhile (\<lambda>p. \<not> prefix ''..'' p) files). projectFiles s p \<noteq> None) \<longrightarrow>
            fst (cacheOutputs (Some files) s)
              = Some (OutputOutsideWorkspace (hd (dropWhile (\<lambda>p. \<not> prefix ''..'' p) files))))"
proof -
  have ne: "files \<noteq> []" using assms(1) by auto
  have r: "fst (cacheOutputs (Some files) s) = fst (copyOutputs files (freshCache files s))"
  proof (cases "copyOutputs files (freshCache files s)")
    case (Pair r s6)
    then show ?thesis using ne by (cases r) (simp_all add: cacheOutputs_nonempty)
  qed
  have "fst (copyOutputs files (freshCache files s)) \<noteq> None"
    using assms by (rule copyOutputs_raises)
  then have a: "fst (cacheOutputs (Some files) s) \<noteq> None" using r by simp
  have b: "\<forall>m p. outDir (snd (cacheOutputs (Some files) s)) = Some m \<and> prefix ''..'' p \<longrightarrow> m p = None"
    using cacheOutputs_copiedOnly[OF ne, of s] unfolding copiedOnly_def by force
  have c: "fst (cacheOutputs (Some files) s)
              = Some (OutputOutsideWorkspace (hd (dropWhile (\<lambda>p. \<not> prefix ''..'' p) files)))"
    if ex: "\<forall>p\<in>set (takeWhile (\<lambda>p. \<not> prefix ''..'' p) files). projectFiles s p \<noteq> None"
    using copyOutputs_first_outside[OF assms, of "freshCache files s"] ex r by simp
  show ?thesis using a b c by blast
qed

theorem cacheOutputs_rejects_outside_witness:
  "''../outside.txt'' \<in> set exOutputFiles \<and> prefix ''..'' ''../outside.txt'' \<and>
   fst (cacheOutputs (Some exOutputFiles) exCache) = Some (OutputOutsideWorkspace ''../outside.txt'') \<and>
   map_option (\<lambda>m. m ''../outside.txt'') (outDir (snd (cacheOutputs (Some exOutputFiles) exCache)))
     = Some None"
proof -
  have mem: "''../outside.txt'' \<in> set exOutputFiles" by (simp add: exOutputFiles_def)
  have pre: "prefix ''..'' ''../outside.txt''" by simp
  note main = cacheOutputs_rejects_outside[OF mem pre, of exCache]
  have ex: "\<forall>p\<in>set (takeWhile (\<lambda>p. \<not> prefix ''..'' p) exOutputFiles). projectFiles exCache p \<noteq> None"
    by (simp add: exOutputFiles_def exCache_def)
  have hdd: "hd (dropWhile (\<lambda>p. \<not> prefix ''..'' p) exOutputFiles) = ''../outside.txt''"
    by (simp add: exOutputFiles_def)
  have err: "fst (cacheOutputs (Some exOutputFiles) exCache)
               = Some (OutputOutsideWorkspace ''../outside.txt'')"
    using main ex hdd by simp
  obtain m where m: "outDir (snd (cacheOutputs (Some exOutputFiles) exCache)) = Some m"
    using exCache_outDir by auto
  then have "m ''../outside.txt'' = None" using main pre by blast
  then show ?thesis using mem pre err m by simp
qed

section \<open>Output capture is not atomic\<close>



end
